theory Spec2Isabelle
  imports Main "HOL-Library.Multiset"
begin

section \<open>Data model (src/src/index.ts, TYPES)\<close>

text \<open>
  \<^verbatim>\<open>NativeFunctionDef\<close>, \<^verbatim>\<open>TitanJson\<close> and \<^verbatim>\<open>TitanExtension\<close> as records; the
  \<^verbatim>\<open>native\<close> object of a manifest is a record of its own. Optional fields are
  \<open>option\<close>s. The field \<^verbatim>\<open>name\<close> of a parsed manifest is an option too:
  \<^verbatim>\<open>JSON.parse(...) as TitanJson\<close> is an unchecked cast and the code tests
  \<^verbatim>\<open>if (name)\<close>, so \<open>None\<close> stands for a missing (or otherwise falsy) value
  and \<open>Some []\<close> for the empty string, which is falsy as well; a name that
  is truthy and not a string is what the declared type excludes.
  \<^verbatim>\<open>functions\<close> is the list that \<^verbatim>\<open>Object.entries\<close> enumerates; \<^verbatim>\<open>v8_functions\<close>
  is the list of its keys (only \<^verbatim>\<open>'serialize' in ...\<close> and
  \<^verbatim>\<open>'deserialize' in ...\<close> are ever asked of it).
\<close>

record NativeFunctionDef =
  symbol :: string
  parameters :: "string list"
  result :: string

record NativeSpec =
  native_path :: string
  native_functions :: "(string \<times> NativeFunctionDef) list option"
  native_v8_functions :: "string list option"

record TitanJson =
  json_name :: "string option"
  json_main :: "string option"
  json_native :: "NativeSpec option"

record TitanExtension =
  name :: string
  path :: string
  titanJson :: TitanJson
  isLocal :: bool

section \<open>Type mapping\<close>

text \<open>
  \<^verbatim>\<open>TYPE_MAP\<close> is an object literal, so \<^verbatim>\<open>TYPE_MAP[p]\<close> is a property read on
  an ordinary object: an own property if there is one, otherwise the member
  inherited from \<^verbatim>\<open>Object.prototype\<close>, otherwise \<^verbatim>\<open>undefined\<close>. The inherited
  members are functions (and, for \<^verbatim>\<open>__proto__\<close>, the prototype object): all of
  them truthy, none of them a string. The value of \<^verbatim>\<open>TYPE_MAP[p] || p\<close> is
  therefore either a type-name string or such an inherited member.
  \<open>object_prototype_keys\<close> lists the property names of \<^verbatim>\<open>Object.prototype\<close>
  that the language standard defines (its section on the properties of the
  Object prototype object, and the legacy accessors of its annex B).
\<close>

datatype type_token = TypeName string | PrototypeMember string

definition TYPE_MAP :: "(string \<times> string) list" where
  "TYPE_MAP = [(''string'', ''str''), (''f64'', ''double''), (''bool'', ''bool''), (''void'', ''void'')]"

definition object_prototype_keys :: "string list" where
  "object_prototype_keys =
     [''constructor'', ''hasOwnProperty'', ''isPrototypeOf'', ''propertyIsEnumerable'',
      ''toLocaleString'', ''toString'', ''valueOf'', ''__proto__'',
      ''__defineGetter__'', ''__defineSetter__'', ''__lookupGetter__'', ''__lookupSetter__'']"

text \<open>\<^verbatim>\<open>TYPE_MAP[p] || p\<close> (lines 260 and 261 of index.ts).\<close>

definition translateType :: "string \<Rightarrow> type_token" where
  "translateType p =
     (case map_of TYPE_MAP p of
        Some s \<Rightarrow> TypeName s
      | None \<Rightarrow> if p \<in> set object_prototype_keys then PrototypeMember p else TypeName p)"

section \<open>The file system as the code observes it\<close>

text \<open>
  The sorter and the loader ask the file system by path: \<^verbatim>\<open>fs.existsSync\<close>, and
  \<^verbatim>\<open>JSON.parse(fs.readFileSync(...))\<close> of a \<^verbatim>\<open>package.json\<close>. The functions of
  \<^verbatim>\<open>node:path\<close> are platform dependent and are taken as parameters too.
  A parsed \<^verbatim>\<open>package.json\<close> is kept as the key lists of its \<^verbatim>\<open>dependencies\<close>,
  \<^verbatim>\<open>peerDependencies\<close> and \<^verbatim>\<open>devDependencies\<close> (empty when the field is
  missing or holds no object); \<open>PackageThrows\<close> is every way in which
  reading, parsing or spreading throws inside the \<^verbatim>\<open>try\<close> of \<^verbatim>\<open>visit\<close>.
\<close>

datatype package_json =
    PackageThrows
  | Package (dependencies: "string list") (peerDependencies: "string list") (devDependencies: "string list")

record file_system =
  path_join :: "string \<Rightarrow> string \<Rightarrow> string"
  path_isAbsolute :: "string \<Rightarrow> bool"
  existsSync :: "string \<Rightarrow> bool"
  readPackageJson :: "string \<Rightarrow> package_json"

text \<open>
  Discovery walks a directory tree, so for it the file system is a tree. A file
  carries what \<^verbatim>\<open>JSON.parse(fs.readFileSync(...))\<close> does when the file is read as
  a manifest: it throws, it yields \<^verbatim>\<open>null\<close> (and then \<^verbatim>\<open>titanJson.name\<close>
  throws), or it yields a value whose fields are read as a \<^verbatim>\<open>TitanJson\<close>. A
  directory carries whether \<^verbatim>\<open>fs.readdirSync\<close> succeeds on it, and its entries in
  the order \<^verbatim>\<open>readdirSync\<close> lists them. \<open>Dangling\<close> is an entry on which
  \<^verbatim>\<open>fs.statSync\<close> throws and \<^verbatim>\<open>fs.existsSync\<close> is false. The tree is finite
  and has no cycles: a directory graph closed into a loop by symbolic links is
  outside this model.
\<close>

datatype manifest_read = ReadThrows | JsonNull | Manifest TitanJson

datatype fs_node =
    File manifest_read
  | Dir bool "(string \<times> fs_node) list"
  | Dangling

definition child :: "fs_node \<Rightarrow> string \<Rightarrow> fs_node option" where
  "child node entry = (case node of Dir listable entries \<Rightarrow> map_of entries entry | _ \<Rightarrow> None)"

definition existsNode :: "fs_node option \<Rightarrow> bool" where
  "existsNode n = (case n of None \<Rightarrow> False | Some Dangling \<Rightarrow> False | Some _ \<Rightarrow> True)"

definition readJson :: "fs_node option \<Rightarrow> manifest_read" where
  "readJson n = (case n of Some (File r) \<Rightarrow> r | _ \<Rightarrow> ReadThrows)"

definition readdirSync :: "fs_node \<Rightarrow> (string \<times> fs_node) list option" where
  "readdirSync node = (case node of Dir True entries \<Rightarrow> Some entries | _ \<Rightarrow> None)"

definition isDirectory :: "fs_node \<Rightarrow> bool option" where
  "isDirectory node = (case node of Dangling \<Rightarrow> None | File _ \<Rightarrow> Some False | Dir _ _ \<Rightarrow> Some True)"

definition startsWith :: "string \<Rightarrow> string \<Rightarrow> bool" where
  "startsWith s p = (take (length p) s = p)"

section \<open>Discovery (discoverExtensions, scanNodeModules)\<close>

text \<open>
  \<^verbatim>\<open>found\<close> is a JavaScript \<^verbatim>\<open>Map\<close>: keys in insertion order, \<^verbatim>\<open>set\<close> on a
  present key replaces the value in place, \<^verbatim>\<open>values()\<close> enumerates in
  insertion order. The \<^verbatim>\<open>log\<close> callback is modelled by the list of the messages
  it was called with.
\<close>

fun map_has :: "(string \<times> 'v) list \<Rightarrow> string \<Rightarrow> bool" where
  "map_has [] k = False"
| "map_has ((k', v) # m) k = (k' = k \<or> map_has m k)"

fun map_set :: "(string \<times> 'v) list \<Rightarrow> string \<Rightarrow> 'v \<Rightarrow> (string \<times> 'v) list" where
  "map_set [] k v = [(k, v)]"
| "map_set ((k', v') # m) k v = (if k' = k then (k, v) # m else (k', v') # map_set m k v)"

definition map_values :: "(string \<times> 'v) list \<Rightarrow> 'v list" where
  "map_values m = map snd m"

record logger =
  messages :: "string list"

record scan_state = logger +
  found :: "(string \<times> TitanExtension) list"

definition log :: "string \<Rightarrow> 'a logger_scheme \<Rightarrow> 'a logger_scheme" where
  "log msg st = st\<lparr>messages := messages st @ [msg]\<rparr>"

text \<open>Lines 81 to 99: the manifest of the project root.\<close>

definition checkLocalManifest :: "string \<Rightarrow> fs_node \<Rightarrow> scan_state \<Rightarrow> scan_state" where
  "checkLocalManifest rootDir root st =
     (if existsNode (child root ''titan.json'')
      then (case readJson (child root ''titan.json'') of
              ReadThrows \<Rightarrow> log ''Warning: Invalid titan.json in project root'' st
            | JsonNull \<Rightarrow> log ''Warning: Invalid titan.json in project root'' st
            | Manifest json \<Rightarrow>
                (case json_name json of
                   None \<Rightarrow> st
                 | Some nm \<Rightarrow>
                     if nm \<noteq> []
                     then log (''Found local extension: '' @ nm)
                            (st\<lparr>found := map_set (found st) nm
                                 \<lparr>name = nm, path = rootDir, titanJson = json, isLocal = True\<rparr>\<rparr>)
                     else st))
      else st)"

text \<open>Lines 140 to 160: the manifest of one directory of the dependency tree.\<close>

definition checkManifest :: "string \<Rightarrow> fs_node \<Rightarrow> scan_state \<Rightarrow> scan_state" where
  "checkManifest fullPath dir st =
     (if existsNode (child dir ''titan.json'')
      then (case readJson (child dir ''titan.json'') of
              ReadThrows \<Rightarrow> log (''Warning: Invalid titan.json in '' @ fullPath) st
            | JsonNull \<Rightarrow> log (''Warning: Invalid titan.json in '' @ fullPath) st
            | Manifest json \<Rightarrow>
                (case json_name json of
                   None \<Rightarrow> st
                 | Some nm \<Rightarrow>
                     if nm \<noteq> [] \<and> \<not> map_has (found st) nm
                     then log (''Found extension: '' @ nm)
                            (st\<lparr>found := map_set (found st) nm
                                 \<lparr>name = nm, path = fullPath, titanJson = json, isLocal = False\<rparr>\<rparr>)
                     else st))
      else st)"

lemma size_entry: "(e, c) \<in> set es \<Longrightarrow> size c \<le> size_list (size_prod (\<lambda>x. 0) size) es"
  by (induction es) auto

lemma child_size: "child node entry = Some c \<Longrightarrow> size c < size node"
  by (cases node) (auto simp: child_def dest!: map_of_SomeD size_entry)

text \<open>
  \<^verbatim>\<open>scanNodeModules\<close> (lines 110 to 168); \<open>scanEntries\<close> is its \<^verbatim>\<open>for\<close> loop.
  Each \<^verbatim>\<open>continue\<close> is the recursive call on the remaining entries.
\<close>

function scanNodeModules ::
    "(string \<Rightarrow> string \<Rightarrow> string) \<Rightarrow> string \<Rightarrow> fs_node \<Rightarrow> scan_state \<Rightarrow> scan_state"
  and scanEntries ::
    "(string \<Rightarrow> string \<Rightarrow> string) \<Rightarrow> string \<Rightarrow> (string \<times> fs_node) list \<Rightarrow> scan_state \<Rightarrow> scan_state"
where
  "scanNodeModules join dir node st =
     (case readdirSync node of
        None \<Rightarrow> st
      | Some entries \<Rightarrow> scanEntries join dir entries st)"
| "scanEntries join dir [] st = st"
| "scanEntries join dir ((entry, node) # rest) st =
     (if startsWith entry ''.'' \<or> entry = ''.bin'' then scanEntries join dir rest st
      else
        let fullPath = join dir entry in
        case isDirectory node of
          None \<Rightarrow> scanEntries join dir rest st
        | Some False \<Rightarrow> scanEntries join dir rest st
        | Some True \<Rightarrow>
            if startsWith entry ''@''
            then scanEntries join dir rest (scanNodeModules join fullPath node st)
            else
              let st1 = checkManifest fullPath node st;
                  nested = join fullPath ''node_modules'';
                  st2 = (case child node ''node_modules'' of
                           None \<Rightarrow> st1
                         | Some sub \<Rightarrow>
                             if existsNode (Some sub) then scanNodeModules join nested sub st1 else st1)
              in scanEntries join dir rest st2)"
  by pat_completeness auto
termination
  by (relation "measure (\<lambda>x. case x of
           Inl (join, dir, node, st) \<Rightarrow> 2 * size node
         | Inr (join, dir, entries, st) \<Rightarrow> 2 * size_list (size_prod (\<lambda>_. 0) size) entries + 1)")
     (auto simp: readdirSync_def isDirectory_def split: fs_node.splits bool.splits dest!: child_size)

text \<open>
  \<^verbatim>\<open>discoverExtensions\<close> (lines 77 to 108) returns the extensions; the model
  returns the logged messages beside them.
\<close>

definition discoverExtensions ::
  "(string \<Rightarrow> string \<Rightarrow> string) \<Rightarrow> string \<Rightarrow> fs_node \<Rightarrow> TitanExtension list \<times> string list" where
  "discoverExtensions join rootDir root =
     (let st0 = \<lparr>messages = [], found = []\<rparr>;
          st1 = checkLocalManifest rootDir root st0;
          nodeModules = join rootDir ''node_modules'';
          st2 = (case child root ''node_modules'' of
                   None \<Rightarrow> st1
                 | Some sub \<Rightarrow>
                     if existsNode (Some sub) then scanNodeModules join nodeModules sub st1 else st1)
      in (map_values (found st2), messages st2))"

section \<open>Dependency sorting (sortByDependencies)\<close>

text \<open>
  \<^verbatim>\<open>Object.keys({...a, ...b, ...c})\<close> lists every key once, at the place of its
  first occurrence (package names are not array indices, which would be listed
  first). \<^verbatim>\<open>new Map(extensions.map(e => [e.name, e]))\<close> keeps, for a name that
  occurs twice, the last extension.
\<close>

definition object_keys :: "string list \<Rightarrow> string list" where
  "object_keys ks = rev (remdups (rev ks))"

definition allDeps :: "package_json \<Rightarrow> string list" where
  "allDeps pkg = object_keys (dependencies pkg @ peerDependencies pkg @ devDependencies pkg)"

definition byName :: "TitanExtension list \<Rightarrow> string \<Rightarrow> TitanExtension option" where
  "byName extensions = map_of (rev (map (\<lambda>e. (name e, e)) extensions))"

record sort_state =
  sorted_list :: "TitanExtension list"
  visited :: "string set"
  visiting :: "string set"

text \<open>
  \<^verbatim>\<open>visit\<close> (lines 184 to 211) is a closure over \<^verbatim>\<open>byName\<close>, \<^verbatim>\<open>sorted\<close>,
  \<^verbatim>\<open>visited\<close> and \<^verbatim>\<open>visiting\<close>: the model passes the extensions and threads
  the three mutable collections as a state. \<open>visitDeps\<close> is the \<^verbatim>\<open>for\<close> loop
  over \<^verbatim>\<open>Object.keys(allDeps)\<close>.
\<close>

function visit :: "file_system \<Rightarrow> TitanExtension list \<Rightarrow> TitanExtension \<Rightarrow> sort_state \<Rightarrow> sort_state"
  and visitDeps :: "file_system \<Rightarrow> TitanExtension list \<Rightarrow> string list \<Rightarrow> sort_state \<Rightarrow> sort_state"
where
  "visit fs extensions ext s =
     (if name ext \<in> visited s then s
      else if name ext \<in> visiting s then s
      else
        let s1 = s\<lparr>visiting := insert (name ext) (visiting s)\<rparr>;
            pkgPath = path_join fs (path ext) ''package.json'';
            s2 = (if existsSync fs pkgPath
                  then (case readPackageJson fs pkgPath of
                          PackageThrows \<Rightarrow> s1
                        | Package d p v \<Rightarrow> visitDeps fs extensions (allDeps (Package d p v)) s1)
                  else s1)
        in s2\<lparr>visiting := visiting s2 - {name ext},
               visited := insert (name ext) (visited s2),
               sorted_list := sorted_list s2 @ [ext]\<rparr>)"
| "visitDeps fs extensions [] s = s"
| "visitDeps fs extensions (depName # rest) s =
     (case byName extensions depName of
        None \<Rightarrow> visitDeps fs extensions rest s
      | Some dep \<Rightarrow> visitDeps fs extensions rest (visit fs extensions dep s))"
  by pat_completeness auto

text \<open>
  Termination. The names in \<open>visited\<close> or \<open>visiting\<close> never shrink, and a call
  that is not cut short adds the name of its extension, which is one of the
  finitely many names of \<^verbatim>\<open>extensions\<close>.
\<close>

definition seen :: "sort_state \<Rightarrow> string set" where
  "seen s = visited s \<union> visiting s"

lemma seen_mono_dom:
  "visit_visitDeps_dom (Inl (fs, extensions, ext, s)) \<Longrightarrow> seen s \<subseteq> seen (visit fs extensions ext s)"
  "visit_visitDeps_dom (Inr (fs, extensions, deps, s)) \<Longrightarrow> seen s \<subseteq> seen (visitDeps fs extensions deps s)"
proof (induction rule: visit_visitDeps.pinduct)
  case (1 fs extensions ext s)
  show ?case
  proof (cases "name ext \<in> visited s \<or> name ext \<in> visiting s")
    case True
    then show ?thesis using "1.hyps" by (auto simp: visit.psimps)
  next
    case False
    let ?s1 = "s\<lparr>visiting := insert (name ext) (visiting s)\<rparr>"
    let ?p = "path_join fs (path ext) ''package.json''"
    show ?thesis
    proof (cases "existsSync fs ?p")
      case ex: True
      show ?thesis
      proof (cases "readPackageJson fs ?p")
        case PackageThrows
        then show ?thesis using False ex "1.hyps" by (auto simp: visit.psimps seen_def Let_def)
      next
        case (Package d p v)
        have "seen ?s1 \<subseteq> seen (visitDeps fs extensions (allDeps (Package d p v)) ?s1)"
          using "1.IH" [OF _ _ refl refl ex Package] False by simp
        then show ?thesis using False ex Package "1.hyps" by (auto simp: visit.psimps seen_def Let_def)
      qed
    next
      case nex: False
      then show ?thesis using False "1.hyps" by (auto simp: visit.psimps seen_def Let_def)
    qed
  qed
next
  case (2 fs extensions s)
  then show ?case by (simp add: visitDeps.psimps)
next
  case (3 fs extensions depName rest s)
  show ?case
  proof (cases "byName extensions depName")
    case None
    then show ?thesis using 3 by (simp add: visitDeps.psimps)
  next
    case (Some dep)
    then show ?thesis using "3.hyps" "3.IH"(2,3) [OF Some] by (simp add: visitDeps.psimps)
  qed
qed

lemma byName_Some_name: "byName extensions n = Some e \<Longrightarrow> name e = n \<and> e \<in> set extensions"
  by (auto simp: byName_def dest!: map_of_SomeD)

termination visit
proof (relation "(\<lambda>x. case x of
                     Inl (fs, extensions, ext, s) \<Rightarrow> card (insert (name ext) (name ` set extensions) - seen s)
                   | Inr (fs, extensions, deps, s) \<Rightarrow> card (name ` set extensions - seen s))
                 <*mlex*>
                 measure (\<lambda>x. case x of Inl _ \<Rightarrow> 0 | Inr (fs, extensions, deps, s) \<Rightarrow> Suc (length deps))",
       goal_cases)
  case 1
  show ?case by (simp add: wf_mlex)
next
  case (2 fs extensions ext s x xa x21 x22 x23)
  have "name ` set extensions - seen x \<subset> insert (name ext) (name ` set extensions) - seen s"
    using 2 by (auto simp: seen_def)
  then have "card (name ` set extensions - seen x) < card (insert (name ext) (name ` set extensions) - seen s)"
    by (intro psubset_card_mono) auto
  then show ?case by (simp add: mlex_less)
next
  case (3 fs extensions depName rest s)
  then show ?case by (simp add: mlex_leq)
next
  case (4 fs extensions depName rest s x2)
  then have "insert (name x2) (name ` set extensions) = name ` set extensions"
    using byName_Some_name by force
  then show ?case by (simp add: mlex_leq)
next
  case (5 fs extensions depName rest s x2)
  have "seen s \<subseteq> seen (visit fs extensions x2 s)"
    using 5 seen_mono_dom(1) by blast
  then have "card (name ` set extensions - seen (visit fs extensions x2 s)) \<le> card (name ` set extensions - seen s)"
    by (intro card_mono) auto
  then show ?case by (simp add: mlex_leq)
qed

text \<open>\<^verbatim>\<open>sortByDependencies\<close> (lines 178 to 226).\<close>

definition sortByDependencies :: "file_system \<Rightarrow> TitanExtension list \<Rightarrow> TitanExtension list" where
  "sortByDependencies fs extensions =
     (let init = \<lparr>sorted_list = [], visited = {}, visiting = {}\<rparr>;
          nodeModulesExts = filter (\<lambda>e. \<not> isLocal e) extensions;
          localExt = find isLocal extensions;
          s1 = fold (visit fs extensions) nodeModulesExts init;
          s2 = (case localExt of None \<Rightarrow> s1 | Some l \<Rightarrow> visit fs extensions l s1)
      in sorted_list s2)"

section \<open>Activation (loadExtension)\<close>

text \<open>
  The namespace \<^verbatim>\<open>t\<close> is the object literal of lines 337 to 340 of
  \<^verbatim>\<open>bootstrap\<close>: an ordinary object, whose prototype is \<^verbatim>\<open>Object.prototype\<close>.
  Objects are shared by reference, so the model keeps a store. A value is a
  reference to an object: \<^verbatim>\<open>Object.prototype\<close>, the initial value of one of
  its members, \<^verbatim>\<open>v8.serialize\<close>, \<^verbatim>\<open>v8.deserialize\<close>, a function that
  \<^verbatim>\<open>lib.func\<close> returned, or an object that the program created (a bag \<^verbatim>\<open>{}\<close>,
  and \<^verbatim>\<open>log\<close> and \<^verbatim>\<open>native\<close> of \<^verbatim>\<open>bootstrap\<close>). \<open>own_properties\<close> holds
  the own properties of \<^verbatim>\<open>t\<close>, \<open>heap\<close> the own properties of every other
  object, and \<open>next_addr\<close> is the first address not yet allocated. No step
  of this program stores a primitive, so every value is truthy, and the
  namespace object is not one of its own bags.

  An object is kept as its own data properties, and each of them can be
  written. The one accessor in the model is \<^verbatim>\<open>__proto__\<close> of
  \<^verbatim>\<open>Object.prototype\<close>, as \<^verbatim>\<open>t\<close> inherits it: the model has no read-only
  property, and no prototype link other than the one from \<^verbatim>\<open>t\<close> to
  \<^verbatim>\<open>Object.prototype\<close>. What an activation writes to \<^verbatim>\<open>Object.prototype\<close> is
  seen by the reads of \<^verbatim>\<open>t\<close>; manifests, \<^verbatim>\<open>package.json\<close> files and
  \<^verbatim>\<open>TYPE_MAP\<close> are read as the language defines \<^verbatim>\<open>Object.prototype\<close>.

  \<^verbatim>\<open>koffi.load\<close>, \<^verbatim>\<open>lib.func\<close> and the dynamic \<^verbatim>\<open>import\<close> are external: they
  are parameters, with \<open>Inl\<close> (or \<open>Some\<close>, for the import) carrying the
  text of what they throw. An imported module runs arbitrary code on the
  namespace.
\<close>

type_synonym addr = nat
type_synonym lib = nat

datatype js_value =
    ObjectPrototype
  | Builtin string
  | V8_serialize
  | V8_deserialize
  | Value nat
  | Object addr

type_synonym bag = "string \<rightharpoonup> js_value"

record namespace =
  own_properties :: "string \<rightharpoonup> js_value"
  heap :: "js_value \<Rightarrow> bag"
  next_addr :: addr

record load_state = logger +
  ns :: namespace
  loadedLibraries :: "lib list"

record native_env =
  koffi_load :: "string \<Rightarrow> string + lib"
  lib_func :: "lib \<Rightarrow> string \<Rightarrow> type_token \<Rightarrow> type_token list \<Rightarrow> string + js_value"
  import_module :: "string \<Rightarrow> namespace \<Rightarrow> string option \<times> namespace"

text \<open>
  The property read \<^verbatim>\<open>t[name]\<close>: an own property of \<^verbatim>\<open>t\<close> if there is one;
  otherwise what \<^verbatim>\<open>t\<close> inherits from \<^verbatim>\<open>Object.prototype\<close>, which for
  \<^verbatim>\<open>__proto__\<close> is the prototype itself (the getter of the accessor) and for
  any other name the property of \<^verbatim>\<open>Object.prototype\<close>, if it has one.
  \<open>None\<close> is \<^verbatim>\<open>undefined\<close>.
\<close>

definition t :: "namespace \<Rightarrow> string \<rightharpoonup> js_value" where
  "t n nm =
     (case own_properties n nm of
        Some v \<Rightarrow> Some v
      | None \<Rightarrow> if nm = ''__proto__'' then Some ObjectPrototype else heap n ObjectPrototype nm)"

text \<open>
  \<^verbatim>\<open>t[name] = t[name] || {}\<close> (line 246). The value is \<^verbatim>\<open>t[name]\<close> when there
  is one, and a new empty object otherwise. The assignment writes the own
  property of \<^verbatim>\<open>t\<close>, which shadows an inherited one, except for
  \<^verbatim>\<open>__proto__\<close> when \<^verbatim>\<open>t\<close> has no own property of that name: then it calls
  the inherited setter, which makes the value the prototype of \<^verbatim>\<open>t\<close>, and the
  value is the prototype that \<^verbatim>\<open>t\<close> has, so nothing changes.
\<close>

definition initNamespace :: "string \<Rightarrow> namespace \<Rightarrow> namespace" where
  "initNamespace nm n =
     (case t n nm of
        Some v \<Rightarrow>
          if nm = ''__proto__'' \<and> own_properties n nm = None then n
          else n\<lparr>own_properties := (own_properties n)(nm \<mapsto> v)\<rparr>
      | None \<Rightarrow> n\<lparr>own_properties := (own_properties n)(nm \<mapsto> Object (next_addr n)),
                 heap := (heap n)(Object (next_addr n) := Map.empty),
                 next_addr := Suc (next_addr n)\<rparr>)"

text \<open>
  \<^verbatim>\<open>t[name][key] = v\<close> writes the property \<open>key\<close> of the object that
  \<^verbatim>\<open>t[name]\<close> is: for a name that \<^verbatim>\<open>t\<close> inherits, a member of
  \<^verbatim>\<open>Object.prototype\<close> or, for \<^verbatim>\<open>__proto__\<close>, \<^verbatim>\<open>Object.prototype\<close> itself.
  The branch \<open>None\<close> is never taken: every assignment follows the
  initialisation of \<^verbatim>\<open>t[name]\<close> (lemma \<open>t_initNamespace_self\<close> below).
\<close>

definition setProperty :: "string \<Rightarrow> string \<Rightarrow> js_value \<Rightarrow> namespace \<Rightarrow> namespace" where
  "setProperty nm key v n =
     (case t n nm of
        Some obj \<Rightarrow> n\<lparr>heap := (heap n)(obj := (heap n obj)(key \<mapsto> v))\<rparr>
      | None \<Rightarrow> n)"

text \<open>Lines 260 to 264: the binding request for one declared function.\<close>

definition bindRequest :: "native_env \<Rightarrow> lib \<Rightarrow> NativeFunctionDef \<Rightarrow> string + js_value" where
  "bindRequest env l d =
     (let params = map translateType (parameters d);
          res = translateType (result d)
      in lib_func env l (symbol d) res params)"

text \<open>Lines 258 to 269: the loop over \<^verbatim>\<open>Object.entries(titanJson.native.functions)\<close>.\<close>

fun registerFunctions ::
  "native_env \<Rightarrow> lib \<Rightarrow> string \<Rightarrow> (string \<times> NativeFunctionDef) list \<Rightarrow> load_state \<Rightarrow> load_state" where
  "registerFunctions env l nm [] s = s"
| "registerFunctions env l nm ((fnName, d) # rest) s =
     registerFunctions env l nm rest
       (case bindRequest env l d of
          Inr f \<Rightarrow> s\<lparr>ns := setProperty nm fnName f (ns s)\<rparr>
        | Inl e \<Rightarrow> log (''Warning: Failed to load native function '' @ fnName @ '': '' @ e) s)"

text \<open>Lines 272 to 279.\<close>

definition registerV8 :: "string \<Rightarrow> string list \<Rightarrow> load_state \<Rightarrow> load_state" where
  "registerV8 nm keys s =
     (let s1 = (if ''serialize'' \<in> set keys
                then s\<lparr>ns := setProperty nm ''serialize'' V8_serialize (ns s)\<rparr> else s)
      in if ''deserialize'' \<in> set keys
         then s1\<lparr>ns := setProperty nm ''deserialize'' V8_deserialize (ns s1)\<rparr> else s1)"

definition resolveDllPath :: "file_system \<Rightarrow> string \<Rightarrow> string \<Rightarrow> string" where
  "resolveDllPath fs dllPath extPath =
     (if path_isAbsolute fs dllPath then dllPath else path_join fs extPath dllPath)"

text \<open>
  Lines 249 to 288. The \<^verbatim>\<open>try\<close> around the loaded library catches what
  \<^verbatim>\<open>koffi.load\<close> throws; a throw of \<^verbatim>\<open>lib.func\<close> is caught per function, inside
  \<open>registerFunctions\<close>.
\<close>

definition loadNative :: "native_env \<Rightarrow> file_system \<Rightarrow> TitanExtension \<Rightarrow> load_state \<Rightarrow> load_state" where
  "loadNative env fs ext s =
     (case json_native (titanJson ext) of
        None \<Rightarrow> s
      | Some native \<Rightarrow>
          if native_path native = [] then s
          else
            let dllPath = resolveDllPath fs (native_path native) (path ext) in
            if existsSync fs dllPath
            then (case koffi_load env dllPath of
                    Inl e \<Rightarrow> log (''Warning: Failed to load DLL '' @ dllPath @ '': '' @ e) s
                  | Inr l \<Rightarrow>
                      let s1 = s\<lparr>loadedLibraries := loadedLibraries s @ [l]\<rparr>;
                          s2 = (case native_functions native of
                                  None \<Rightarrow> s1
                                | Some fns \<Rightarrow> registerFunctions env l (name ext) fns s1);
                          s3 = (case native_v8_functions native of
                                  None \<Rightarrow> s2
                                | Some keys \<Rightarrow> registerV8 (name ext) keys s2)
                      in log (''Loaded native: '' @ dllPath) s3)
            else log (''Warning: DLL not found: '' @ dllPath) s)"

text \<open>Lines 240 to 288: everything before the entry module.\<close>

definition bindingPhase :: "native_env \<Rightarrow> file_system \<Rightarrow> TitanExtension \<Rightarrow> load_state \<Rightarrow> load_state" where
  "bindingPhase env fs ext s =
     (let label = (if isLocal ext then ''(local)'' else '''');
          s0 = log (''Loading: '' @ name ext @ '' '' @ label) s;
          s1 = s0\<lparr>ns := initNamespace (name ext) (ns s0)\<rparr>
      in loadNative env fs ext s1)"

text \<open>Lines 290 to 301: the entry module.\<close>

definition loadModule :: "native_env \<Rightarrow> file_system \<Rightarrow> TitanExtension \<Rightarrow> load_state \<Rightarrow> load_state" where
  "loadModule env fs ext s =
     (let mainFile = (case json_main (titanJson ext) of
                        None \<Rightarrow> ''index.js''
                      | Some m \<Rightarrow> if m = [] then ''index.js'' else m);
          mainPath = path_join fs (path ext) mainFile
      in if existsSync fs mainPath
         then (case import_module env mainPath (ns s) of
                 (None, n') \<Rightarrow> log (''Loaded JS: '' @ mainPath) (s\<lparr>ns := n'\<rparr>)
               | (Some e, n') \<Rightarrow> log (''Warning: Failed to load JS '' @ mainPath @ '': '' @ e) (s\<lparr>ns := n'\<rparr>))
         else s)"

definition loadExtension :: "native_env \<Rightarrow> file_system \<Rightarrow> TitanExtension \<Rightarrow> load_state \<Rightarrow> load_state" where
  "loadExtension env fs ext s = loadModule env fs ext (bindingPhase env fs ext s)"

text \<open>Lines 361 to 363 of \<^verbatim>\<open>bootstrap\<close>: the extensions are loaded one after the other.\<close>

definition loadAll :: "native_env \<Rightarrow> file_system \<Rightarrow> TitanExtension list \<Rightarrow> load_state \<Rightarrow> load_state" where
  "loadAll env fs sorted_exts s = fold (loadExtension env fs) sorted_exts s"

section \<open>Vocabulary of the properties\<close>

subsection \<open>Sorting\<close>

text \<open>
  The dependency names an extension declares: the keys that \<^verbatim>\<open>visit\<close> iterates
  over (none when \<^verbatim>\<open>package.json\<close> is missing or cannot be read).
\<close>

definition declaredDeps :: "file_system \<Rightarrow> TitanExtension \<Rightarrow> string list" where
  "declaredDeps fs ext =
     (let pkgPath = path_join fs (path ext) ''package.json'' in
      if existsSync fs pkgPath
      then (case readPackageJson fs pkgPath of PackageThrows \<Rightarrow> [] | Package d p v \<Rightarrow> allDeps (Package d p v))
      else [])"

definition enter :: "TitanExtension \<Rightarrow> sort_state \<Rightarrow> sort_state" where
  "enter ext s = s\<lparr>visiting := insert (name ext) (visiting s)\<rparr>"

definition finish :: "TitanExtension \<Rightarrow> sort_state \<Rightarrow> sort_state" where
  "finish ext s = s\<lparr>visiting := visiting s - {name ext},
                     visited := insert (name ext) (visited s),
                     sorted_list := sorted_list s @ [ext]\<rparr>"

definition init_state :: sort_state where
  "init_state = \<lparr>sorted_list = [], visited = {}, visiting = {}\<rparr>"

definition final_state :: "file_system \<Rightarrow> TitanExtension list \<Rightarrow> sort_state" where
  "final_state fs extensions =
     (let s1 = fold (visit fs extensions) (filter (\<lambda>e. \<not> isLocal e) extensions) init_state
      in case find isLocal extensions of None \<Rightarrow> s1 | Some l \<Rightarrow> visit fs extensions l s1)"

text \<open>The invariant of the traversal.\<close>

definition sort_inv :: "TitanExtension list \<Rightarrow> sort_state \<Rightarrow> bool" where
  "sort_inv extensions s \<longleftrightarrow>
     visited s = name ` set (sorted_list s) \<and> distinct (map name (sorted_list s)) \<and>
     set (sorted_list s) \<subseteq> set extensions \<and> visited s \<inter> visiting s = {}"

text \<open>
  What an extension declares, read off its \<^verbatim>\<open>package.json\<close> without the
  merge that \<^verbatim>\<open>visit\<close> makes: the union of its runtime, peer and development
  dependency identifiers (nothing when the file is missing or cannot be
  read).
\<close>

definition declaredNames :: "file_system \<Rightarrow> TitanExtension \<Rightarrow> string set" where
  "declaredNames fs ext =
     (if existsSync fs (path_join fs (path ext) ''package.json'')
      then (case readPackageJson fs (path_join fs (path ext) ''package.json'') of
              PackageThrows \<Rightarrow> {}
            | Package runtime peer development \<Rightarrow> set runtime \<union> set peer \<union> set development)
      else {})"

text \<open>
  The dependency relation among the discovered extensions, on their names:
  \<open>(a, b)\<close> when the extension named \<open>a\<close> declares \<open>b\<close> and \<open>b\<close> is the
  name of a discovered extension.
\<close>

definition dep_rel :: "file_system \<Rightarrow> TitanExtension list \<Rightarrow> (string \<times> string) set" where
  "dep_rel fs extensions =
     {(name a, d) | a d. a \<in> set extensions \<and> d \<in> declaredNames fs a \<and> d \<in> name ` set extensions}"

text \<open>Every element of the list comes after the discovered extensions it declares.\<close>

definition deps_before :: "file_system \<Rightarrow> TitanExtension list \<Rightarrow> TitanExtension list \<Rightarrow> bool" where
  "deps_before fs extensions xs \<longleftrightarrow>
     (\<forall>i < length xs. \<forall>d \<in> set (declaredDeps fs (xs ! i)).
        d \<in> name ` set extensions \<longrightarrow> d \<in> name ` set (take i xs))"

subsection \<open>Discovery\<close>

definition init_scan :: scan_state where
  "init_scan = \<lparr>messages = [], found = []\<rparr>"

text \<open>
  \<open>extends st st'\<close>: the registered entries of \<open>st\<close> are still there, in
  place, and what was added is not local, is registered under its own name,
  and has a name that was not registered before.
\<close>

definition extends :: "scan_state \<Rightarrow> scan_state \<Rightarrow> bool" where
  "extends st st' \<longleftrightarrow>
     (\<exists>new. found st' = found st @ new \<and>
            (\<forall>p \<in> set new. \<not> isLocal (snd p) \<and> name (snd p) = fst p \<and> fst p \<notin> fst ` set (found st)) \<and>
            distinct (map fst new))"

text \<open>
  Every registered entry stands under its own name, which is not empty and
  is the name its manifest gives.
\<close>

definition named_entries :: "scan_state \<Rightarrow> bool" where
  "named_entries st \<longleftrightarrow>
     (\<forall>p \<in> set (found st).
        name (snd p) = fst p \<and> fst p \<noteq> [] \<and> json_name (titanJson (snd p)) = Some (fst p))"

subsection \<open>Activation\<close>

text \<open>The bag under a name: the own properties of the object \<^verbatim>\<open>t[name]\<close>.\<close>

definition bagOf :: "string \<Rightarrow> namespace \<Rightarrow> bag" where
  "bagOf nm n = (case t n nm of Some obj \<Rightarrow> heap n obj | None \<Rightarrow> Map.empty)"

text \<open>Every created object that a name of the namespace refers to is allocated.\<close>

definition wf_namespace :: "namespace \<Rightarrow> bool" where
  "wf_namespace n \<longleftrightarrow> (\<forall>nm a. t n nm = Some (Object a) \<longrightarrow> a < next_addr n)"

text \<open>
  The state of a name after line 246: \<^verbatim>\<open>t\<close> has it as an own property, or it
  is \<^verbatim>\<open>__proto__\<close>, so that what \<^verbatim>\<open>t[name]\<close> is does not depend on the
  properties of \<^verbatim>\<open>Object.prototype\<close>.
\<close>

definition settled :: "string \<Rightarrow> namespace \<Rightarrow> bool" where
  "settled nm n \<longleftrightarrow> own_properties n nm \<noteq> None \<or> nm = ''__proto__''"

text \<open>
  \<open>frame nm n n'\<close>: from \<open>n\<close> to \<open>n'\<close> no own property of the namespace
  changed, no object was allocated, only the object \<^verbatim>\<open>t[nm]\<close> was written to,
  and no property was removed.
\<close>

definition frame :: "string \<Rightarrow> namespace \<Rightarrow> namespace \<Rightarrow> bool" where
  "frame nm n n' \<longleftrightarrow>
     own_properties n' = own_properties n \<and> next_addr n' = next_addr n \<and>
     (\<forall>obj. Some obj \<noteq> t n nm \<longrightarrow> heap n' obj = heap n obj) \<and>
     (\<forall>obj. dom (heap n obj) \<subseteq> dom (heap n' obj))"


definition entryModulePath :: "file_system \<Rightarrow> TitanExtension \<Rightarrow> string" where
  "entryModulePath fs ext =
     path_join fs (path ext)
       (case json_main (titanJson ext) of None \<Rightarrow> ''index.js'' | Some m \<Rightarrow> if m = [] then ''index.js'' else m)"

definition loadingMessage :: "TitanExtension \<Rightarrow> string" where
  "loadingMessage ext = ''Loading: '' @ name ext @ '' '' @ (if isLocal ext then ''(local)'' else '''')"

text \<open>The state after lines 243 and 246.\<close>

definition initialised :: "TitanExtension \<Rightarrow> load_state \<Rightarrow> load_state" where
  "initialised ext s = (log (loadingMessage ext) s)\<lparr>ns := initNamespace (name ext) (ns s)\<rparr>"


text \<open>The state after lines 255 to 279, once the library \<open>l\<close> is loaded.\<close>

definition bound :: "native_env \<Rightarrow> lib \<Rightarrow> TitanExtension \<Rightarrow> NativeSpec \<Rightarrow> load_state \<Rightarrow> load_state" where
  "bound env l ext native s =
     (let s1 = s\<lparr>loadedLibraries := loadedLibraries s @ [l]\<rparr>;
          s2 = (case native_functions native of
                  None \<Rightarrow> s1
                | Some fns \<Rightarrow> registerFunctions env l (name ext) fns s1)
      in case native_v8_functions native of
           None \<Rightarrow> s2
         | Some keys \<Rightarrow> registerV8 (name ext) keys s2)"

section \<open>Concrete inputs\<close>

definition posix_join :: "string \<Rightarrow> string \<Rightarrow> string" where
  "posix_join a b = a @ ''/'' @ b"

definition plain_manifest :: "string option \<Rightarrow> TitanJson" where
  "plain_manifest nm = \<lparr>json_name = nm, json_main = None, json_native = None\<rparr>"

definition plain_ext :: "string \<Rightarrow> string \<Rightarrow> bool \<Rightarrow> TitanExtension" where
  "plain_ext nm p l = \<lparr>name = nm, path = p, titanJson = plain_manifest (Some nm), isLocal = l\<rparr>"

text \<open>A file system given by the files that exist, each with the keys of its \<^verbatim>\<open>dependencies\<close>.\<close>

definition deps_fs :: "(string \<times> string list) list \<Rightarrow> file_system" where
  "deps_fs pkgs =
     \<lparr>path_join = posix_join,
      path_isAbsolute = (\<lambda>p. take 1 p = ''/''),
      existsSync = (\<lambda>p. map_of pkgs p \<noteq> None),
      readPackageJson = (\<lambda>p. case map_of pkgs p of None \<Rightarrow> PackageThrows | Some ds \<Rightarrow> Package ds [] [])\<rparr>"

text \<open>A project \<^verbatim>\<open>app\<close> with an installed extension \<^verbatim>\<open>plugin\<close> that depends on \<^verbatim>\<open>app\<close>.\<close>

definition plugin_on_app_fs :: file_system where
  "plugin_on_app_fs = deps_fs [(''/app/node_modules/plugin/package.json'', [''app''])]"

definition plugin_on_app :: "TitanExtension list" where
  "plugin_on_app = [plain_ext ''app'' ''/app'' True, plain_ext ''plugin'' ''/app/node_modules/plugin'' False]"

text \<open>Two extensions, each of which depends on the other.\<close>

definition pair_exts :: "TitanExtension list" where
  "pair_exts = [plain_ext ''a'' ''/m/a'' False, plain_ext ''b'' ''/m/b'' False]"

definition cycle_fs :: file_system where
  "cycle_fs = deps_fs [(''/m/a/package.json'', [''b'']), (''/m/b/package.json'', [''a''])]"

text \<open>
  Three extensions: \<^verbatim>\<open>a\<close> names \<^verbatim>\<open>b\<close> among its peer dependencies only,
  \<^verbatim>\<open>b\<close> names \<^verbatim>\<open>c\<close> among its development dependencies only, and \<^verbatim>\<open>c\<close> has
  one runtime dependency, which is no extension.
\<close>

definition packages_fs :: "(string \<times> package_json) list \<Rightarrow> file_system" where
  "packages_fs pkgs =
     \<lparr>path_join = posix_join,
      path_isAbsolute = (\<lambda>p. take 1 p = ''/''),
      existsSync = (\<lambda>p. map_of pkgs p \<noteq> None),
      readPackageJson = (\<lambda>p. case map_of pkgs p of None \<Rightarrow> PackageThrows | Some pkg \<Rightarrow> pkg)\<rparr>"

definition trio_exts :: "TitanExtension list" where
  "trio_exts = [plain_ext ''a'' ''/m/a'' False, plain_ext ''b'' ''/m/b'' False, plain_ext ''c'' ''/m/c'' False]"

definition trio_fs :: file_system where
  "trio_fs =
     packages_fs [(''/m/a/package.json'', Package [] [''b''] []),
                  (''/m/b/package.json'', Package [] [] [''c'']),
                  (''/m/c/package.json'', Package [''left-pad''] [] [])]"

text \<open>
  A project whose manifest parses but has no \<^verbatim>\<open>name\<close>, with one installed
  package whose manifest has the empty name.
\<close>

definition nameless_root :: fs_node where
  "nameless_root =
     Dir True [(''titan.json'', File (Manifest (plain_manifest None))),
               (''node_modules'', Dir True
                  [(''pkg'', Dir True [(''titan.json'', File (Manifest (plain_manifest (Some ''''))))])])]"

definition broken_dir :: fs_node where
  "broken_dir = Dir True [(''titan.json'', File ReadThrows)]"

definition nameless_dir :: fs_node where
  "nameless_dir = Dir True [(''titan.json'', File (Manifest (plain_manifest None)))]"

text \<open>
  A project named \<^verbatim>\<open>x\<close> with an installed extension also named \<^verbatim>\<open>x\<close>, and an
  extension \<^verbatim>\<open>y\<close> installed twice, at the top level and nested.
\<close>

definition collide_root :: fs_node where
  "collide_root =
     Dir True [(''titan.json'', File (Manifest (plain_manifest (Some ''x'')))),
               (''node_modules'', Dir True
                  [(''x'', Dir True [(''titan.json'', File (Manifest (plain_manifest (Some ''x''))))]),
                   (''y'', Dir True [(''titan.json'', File (Manifest (plain_manifest (Some ''y'')))),
                                     (''node_modules'', Dir True
                                        [(''y'', Dir True [(''titan.json'', File (Manifest (plain_manifest (Some ''y''))))])])])])]"

text \<open>
  An extension \<^verbatim>\<open>core\<close> that declares the functions \<^verbatim>\<open>add\<close> and \<^verbatim>\<open>hash\<close> and
  both serialization hooks; a binding service that knows the symbol
  \<^verbatim>\<open>core_add\<close> only; the namespace as \<^verbatim>\<open>bootstrap\<close> creates it (\<^verbatim>\<open>log\<close> and
  \<^verbatim>\<open>native\<close>); a file system with no file at all, and one with the library.
\<close>

definition core_functions :: "(string \<times> NativeFunctionDef) list" where
  "core_functions =
     [(''add'', \<lparr>symbol = ''core_add'', parameters = [''f64'', ''f64''], result = ''f64''\<rparr>),
      (''hash'', \<lparr>symbol = ''core_hash'', parameters = [''string''], result = ''string''\<rparr>)]"

definition core_native :: NativeSpec where
  "core_native =
     \<lparr>native_path = ''core.dll'',
      native_functions = Some core_functions,
      native_v8_functions = Some [''serialize'', ''deserialize'']\<rparr>"

definition core_ext :: TitanExtension where
  "core_ext = \<lparr>name = ''core'', path = ''/m/core'',
                titanJson = \<lparr>json_name = Some ''core'', json_main = None, json_native = Some core_native\<rparr>,
                isLocal = False\<rparr>"

definition no_files :: file_system where
  "no_files = deps_fs []"

definition dll_only :: file_system where
  "dll_only = deps_fs [(''/m/core/core.dll'', [])]"

definition koffi :: native_env where
  "koffi =
     \<lparr>koffi_load = (\<lambda>p. Inr 7),
      lib_func = (\<lambda>l sym res params. if sym = ''core_add'' then Inr (Value 1) else Inl ''symbol not found''),
      import_module = (\<lambda>p n. (None, n))\<rparr>"

text \<open>
  The data properties that the language gives \<^verbatim>\<open>Object.prototype\<close>
  (\<^verbatim>\<open>__proto__\<close> is its accessor).
\<close>

definition object_prototype_members :: bag where
  "object_prototype_members k =
     (if k \<in> set object_prototype_keys \<and> k \<noteq> ''__proto__'' then Some (Builtin k) else None)"

definition boot_state :: load_state where
  "boot_state =
     \<lparr>messages = [],
      ns = \<lparr>own_properties = [''log'' \<mapsto> Object 0, ''native'' \<mapsto> Object 1],
            heap = (\<lambda>obj. Map.empty)(ObjectPrototype := object_prototype_members),
            next_addr = 2\<rparr>,
      loadedLibraries = []\<rparr>"

text \<open>
  An extension named \<^verbatim>\<open>__proto__\<close> with the manifest of \<^verbatim>\<open>core\<close>, and a file
  system that has its library.
\<close>

definition proto_ext :: TitanExtension where
  "proto_ext = \<lparr>name = ''__proto__'', path = ''/m/proto'',
                 titanJson = \<lparr>json_name = Some ''__proto__'', json_main = None, json_native = Some core_native\<rparr>,
                 isLocal = False\<rparr>"

definition proto_fs :: file_system where
  "proto_fs = deps_fs [(''/m/proto/core.dll'', [])]"

section \<open>Type-name translation\<close>

lemma translateType_aliases:
  "translateType ''string'' = TypeName ''str''"
  "translateType ''f64'' = TypeName ''double''"
  "translateType ''bool'' = TypeName ''bool''"
  "translateType ''void'' = TypeName ''void''"
  by (simp_all add: translateType_def TYPE_MAP_def)

lemma translateType_passthrough:
  "p \<notin> fst ` set TYPE_MAP \<Longrightarrow> p \<notin> set object_prototype_keys \<Longrightarrow> translateType p = TypeName p"
  by (simp add: translateType_def map_of_eq_None_iff [THEN iffD2])

text \<open>
  C2. The claim: the translation maps the four aliases to their tokens and is
  the identity on every other type name, also on \<^verbatim>\<open>toString\<close> and
  \<^verbatim>\<open>constructor\<close>. The code, at those two names: the lookup finds the member
  inherited from the object prototype, which is truthy, so the translation
  yields that member and not the name.
\<close>

theorem translateType_inherited_names:
  "translateType ''toString'' = PrototypeMember ''toString'' \<and>
   translateType ''toString'' \<noteq> TypeName ''toString'' \<and>
   translateType ''constructor'' = PrototypeMember ''constructor'' \<and>
   translateType ''constructor'' \<noteq> TypeName ''constructor''"
  by (simp add: translateType_def TYPE_MAP_def object_prototype_keys_def)

section \<open>Properties of the dependency sort\<close>

lemma visit_skip:
  "name ext \<in> visited s \<or> name ext \<in> visiting s \<Longrightarrow> visit fs extensions ext s = s"
  by auto

lemma visit_step:
  "name ext \<notin> visited s \<Longrightarrow> name ext \<notin> visiting s \<Longrightarrow>
   visit fs extensions ext s = finish ext (visitDeps fs extensions (declaredDeps fs ext) (enter ext s))"
  by (simp add: declaredDeps_def enter_def finish_def Let_def split: package_json.splits)

lemma visit_cases_induct [case_names visit Nil Cons]:
  assumes V: "\<And>ext s. (name ext \<notin> visited s \<Longrightarrow> name ext \<notin> visiting s \<Longrightarrow>
                      Q (declaredDeps fs ext) (enter ext s)) \<Longrightarrow> P ext s"
    and N: "\<And>s. Q [] s"
    and C: "\<And>d ds s. (byName extensions d = None \<Longrightarrow> Q ds s) \<Longrightarrow>
                   (\<And>dep. byName extensions d = Some dep \<Longrightarrow> P dep s) \<Longrightarrow>
                   (\<And>dep. byName extensions d = Some dep \<Longrightarrow> Q ds (visit fs extensions dep s)) \<Longrightarrow>
                   Q (d # ds) s"
  shows "P ext s" and "Q deps s"
proof -
  have "(fs' = fs \<longrightarrow> exts' = extensions \<longrightarrow> P ext' s')"
    and "(fs'' = fs \<longrightarrow> exts'' = extensions \<longrightarrow> Q deps' s'')" for fs' exts' ext' s' fs'' exts'' deps' s''
  proof (induction fs' exts' ext' s' and fs'' exts'' deps' s'' rule: visit_visitDeps.induct)
    case (1 fs' exts' ext s)
    show ?case
    proof (intro impI)
      assume eq: "fs' = fs" "exts' = extensions"
      show "P ext s"
      proof (rule V)
        assume nv: "name ext \<notin> visited s" "name ext \<notin> visiting s"
        let ?p = "path_join fs (path ext) ''package.json''"
        show "Q (declaredDeps fs ext) (enter ext s)"
        proof (cases "existsSync fs ?p")
          case True
          show ?thesis
          proof (cases "readPackageJson fs ?p")
            case PackageThrows
            then show ?thesis using True N by (simp add: declaredDeps_def)
          next
            case (Package d p v)
            then show ?thesis
              using "1.IH" [OF nv refl refl _ _] True eq
              by (simp add: declaredDeps_def enter_def)
          qed
        next
          case False
          then show ?thesis using N by (simp add: declaredDeps_def)
        qed
      qed
    qed
  next
    case (2 fs' exts' s)
    then show ?case using N by simp
  next
    case (3 fs' exts' d ds s)
    show ?case
    proof (intro impI)
      assume eq: "fs' = fs" "exts' = extensions"
      show "Q (d # ds) s"
        using "3.IH" eq by (intro C) auto
    qed
  qed
  then show "P ext s" and "Q deps s" by blast+
qed

declare visit.simps [simp del]

lemma visiting_preserved:
  "visiting (visit fs extensions ext s) = visiting s"
  "visiting (visitDeps fs extensions deps s) = visiting s"
proof (induction ext s and deps s rule: visit_cases_induct [where fs = fs and extensions = extensions])
  case (visit ext s)
  show ?case
  proof (cases "name ext \<in> visited s \<or> name ext \<in> visiting s")
    case True
    then show ?thesis by (simp add: visit_skip)
  next
    case False
    then show ?thesis using visit by (auto simp: visit_step finish_def enter_def)
  qed
next
  case (Nil s)
  show ?case by simp
next
  case (Cons d ds s)
  then show ?case by (cases "byName extensions d") simp_all
qed

lemma sort_inv_enter:
  "sort_inv extensions s \<Longrightarrow> name ext \<notin> visited s \<Longrightarrow> sort_inv extensions (enter ext s)"
  by (auto simp: sort_inv_def enter_def)

lemma sort_inv_finish:
  "sort_inv extensions s \<Longrightarrow> name ext \<in> visiting s \<Longrightarrow> ext \<in> set extensions \<Longrightarrow>
   sort_inv extensions (finish ext s)"
  by (auto simp: sort_inv_def finish_def)

lemma sort_inv_preserved:
  "ext \<in> set extensions \<Longrightarrow> sort_inv extensions s \<Longrightarrow> sort_inv extensions (visit fs extensions ext s)"
  "sort_inv extensions s \<Longrightarrow> sort_inv extensions (visitDeps fs extensions deps s)"
proof (induction ext s and deps s rule: visit_cases_induct [where fs = fs and extensions = extensions])
  case (visit ext s)
  show ?case
  proof (cases "name ext \<in> visited s \<or> name ext \<in> visiting s")
    case True
    then show ?thesis using visit.prems by (simp add: visit_skip)
  next
    case False
    let ?s2 = "visitDeps fs extensions (declaredDeps fs ext) (enter ext s)"
    have "sort_inv extensions ?s2"
      using visit.IH False visit.prems by (simp add: sort_inv_enter)
    moreover have "name ext \<in> visiting ?s2"
      by (simp add: visiting_preserved enter_def)
    ultimately show ?thesis using False visit.prems by (simp add: visit_step sort_inv_finish)
  qed
next
  case (Nil s)
  then show ?case by simp
next
  case (Cons d ds s)
  then show ?case
    by (cases "byName extensions d") (auto dest: byName_Some_name)
qed

lemma visited_mono:
  "visited s \<subseteq> visited (visit fs extensions ext s)"
  "visited s \<subseteq> visited (visitDeps fs extensions deps s)"
proof (induction ext s and deps s rule: visit_cases_induct [where fs = fs and extensions = extensions])
  case (visit ext s)
  show ?case
  proof (cases "name ext \<in> visited s \<or> name ext \<in> visiting s")
    case True
    then show ?thesis by (simp add: visit_skip)
  next
    case False
    then show ?thesis using visit by (auto simp: visit_step finish_def enter_def)
  qed
next
  case (Nil s)
  show ?case by simp
next
  case (Cons d ds s)
  then show ?case by (cases "byName extensions d") auto
qed

lemma visit_visits:
  "name ext \<notin> visiting s \<Longrightarrow> name ext \<in> visited (visit fs extensions ext s)"
  by (cases "name ext \<in> visited s") (simp_all add: visit_skip visit_step finish_def)

lemma sort_inv_init: "sort_inv extensions init_state"
  by (simp add: sort_inv_def init_state_def)

lemma fold_visit_roots:
  assumes "set roots \<subseteq> set extensions" "sort_inv extensions s" "visiting s = {}"
  shows "sort_inv extensions (fold (visit fs extensions) roots s) \<and>
         visiting (fold (visit fs extensions) roots s) = {} \<and>
         visited s \<union> name ` set roots \<subseteq> visited (fold (visit fs extensions) roots s)"
  using assms
proof (induction roots arbitrary: s)
  case Nil
  then show ?case by simp
next
  case (Cons r roots)
  let ?s1 = "visit fs extensions r s"
  have 1: "sort_inv extensions ?s1" using Cons.prems by (simp add: sort_inv_preserved)
  have 2: "visiting ?s1 = {}" using Cons.prems by (simp add: visiting_preserved)
  have 3: "name r \<in> visited ?s1" using Cons.prems by (simp add: visit_visits)
  have 4: "visited s \<subseteq> visited ?s1" by (rule visited_mono)
  from Cons.IH [OF _ 1 2] Cons.prems(1) 3 4 show ?case by auto
qed

lemma find_unique_local:
  assumes "length (filter isLocal extensions) \<le> 1" "e \<in> set extensions" "isLocal e"
  shows "find isLocal extensions = Some e"
proof -
  from assms(2,3) obtain l where l: "find isLocal extensions = Some l"
    by (cases "find isLocal extensions") (auto simp: find_None_iff)
  then have "l \<in> set (filter isLocal extensions)"
    by (auto simp: find_Some_iff)
  moreover have "e \<in> set (filter isLocal extensions)" using assms by simp
  ultimately have "l = e"
    using assms(1) by (cases "filter isLocal extensions") auto
  with l show ?thesis by simp
qed

lemma visiting_init: "visiting init_state = {}"
  by (simp add: init_state_def)

lemma nonlocal_roots:
  "sort_inv extensions (fold (visit fs extensions) (filter (\<lambda>e. \<not> isLocal e) extensions) init_state) \<and>
   visiting (fold (visit fs extensions) (filter (\<lambda>e. \<not> isLocal e) extensions) init_state) = {} \<and>
   name ` set (filter (\<lambda>e. \<not> isLocal e) extensions)
     \<subseteq> visited (fold (visit fs extensions) (filter (\<lambda>e. \<not> isLocal e) extensions) init_state)"
proof -
  have "set (filter (\<lambda>e. \<not> isLocal e) extensions) \<subseteq> set extensions" by auto
  from fold_visit_roots [OF this sort_inv_init visiting_init] show ?thesis by blast
qed

lemma sortByDependencies_final: "sortByDependencies fs extensions = sorted_list (final_state fs extensions)"
  by (simp add: sortByDependencies_def final_state_def init_state_def Let_def)

lemma final_state_inv:
  "sort_inv extensions (final_state fs extensions) \<and> visiting (final_state fs extensions) = {}"
proof -
  let ?s1 = "fold (visit fs extensions) (filter (\<lambda>e. \<not> isLocal e) extensions) init_state"
  have 1: "sort_inv extensions ?s1 \<and> visiting ?s1 = {}"
    using nonlocal_roots by blast
  show ?thesis
  proof (cases "find isLocal extensions")
    case None
    then show ?thesis using 1 by (simp add: final_state_def)
  next
    case (Some l)
    then have "l \<in> set extensions" by (auto simp: find_Some_iff)
    then show ?thesis using 1 Some
      by (simp add: final_state_def sort_inv_preserved visiting_preserved)
  qed
qed

lemma final_state_complete:
  assumes "length (filter isLocal extensions) \<le> 1"
  shows "name ` set extensions \<subseteq> visited (final_state fs extensions)"
proof
  fix n assume "n \<in> name ` set extensions"
  then obtain e where e: "e \<in> set extensions" "n = name e" by auto
  let ?s1 = "fold (visit fs extensions) (filter (\<lambda>e. \<not> isLocal e) extensions) init_state"
  have 1: "sort_inv extensions ?s1 \<and> visiting ?s1 = {} \<and>
           name ` set (filter (\<lambda>e. \<not> isLocal e) extensions) \<subseteq> visited ?s1"
    using nonlocal_roots by blast
  show "n \<in> visited (final_state fs extensions)"
  proof (cases "isLocal e")
    case True
    then have "find isLocal extensions = Some e" using assms e by (simp add: find_unique_local)
    then show ?thesis using 1 e by (simp add: final_state_def visit_visits)
  next
    case False
    then have "n \<in> visited ?s1" using 1 e by auto
    then show ?thesis
      using visited_mono(1) [of ?s1 fs extensions]
      by (cases "find isLocal extensions") (auto simp: final_state_def)
  qed
qed

lemma sortByDependencies_set:
  assumes "distinct (map name extensions)" "length (filter isLocal extensions) \<le> 1"
  shows "set (sortByDependencies fs extensions) = set extensions"
proof -
  let ?r = "sortByDependencies fs extensions"
  have inv: "sort_inv extensions (final_state fs extensions)" using final_state_inv by blast
  have sub: "set ?r \<subseteq> set extensions"
    using inv by (simp add: sort_inv_def sortByDependencies_final)
  have names: "name ` set extensions \<subseteq> name ` set ?r"
    using final_state_complete [OF assms(2), of fs] inv
    by (simp add: sort_inv_def sortByDependencies_final)
  have inj: "inj_on name (set extensions)" using assms(1) by (simp add: distinct_map)
  have "set extensions \<subseteq> set ?r"
  proof
    fix e assume e: "e \<in> set extensions"
    then obtain e' where e': "e' \<in> set ?r" "name e' = name e" using names by force
    then have "e' = e" using inj sub e by (auto dest: inj_onD)
    with e' show "e \<in> set ?r" by simp
  qed
  with sub show ?thesis by blast
qed

lemma sortByDependencies_distinct: "distinct (map name (sortByDependencies fs extensions))"
  using final_state_inv [of extensions fs] by (simp add: sort_inv_def sortByDependencies_final)

text \<open>
  C5. For every discovered set (names pairwise distinct, at most one local
  extension), with or without cycles among the declared dependencies,
  \<^verbatim>\<open>sortByDependencies\<close> returns a permutation of its input: every extension
  exactly once. The model has no error result: what \<^verbatim>\<open>visit\<close> could throw is
  caught by its \<^verbatim>\<open>try\<close>, and the function is total, so nothing is raised. A
  node met again while it is in \<open>visiting\<close> is skipped: the visit returns the
  state unchanged.
\<close>

theorem sortByDependencies_permutation:
  assumes "distinct (map name extensions)" "length (filter isLocal extensions) \<le> 1"
  shows "mset (sortByDependencies fs extensions) = mset extensions \<and>
         (\<forall>ext s. name ext \<in> visiting s \<longrightarrow> visit fs extensions ext s = s)"
proof -
  have "distinct (sortByDependencies fs extensions)"
    using sortByDependencies_distinct [of fs extensions] by (simp add: distinct_map)
  moreover have "distinct extensions" using assms(1) by (simp add: distinct_map)
  ultimately have "mset (sortByDependencies fs extensions) = mset extensions"
    using sortByDependencies_set [OF assms, of fs] by (metis set_eq_iff_mset_eq_distinct)
  then show ?thesis by (simp add: visit_skip)
qed

text \<open>The cycle \<^verbatim>\<open>a\<close> depends on \<^verbatim>\<open>b\<close>, \<^verbatim>\<open>b\<close> depends on \<^verbatim>\<open>a\<close>.\<close>

theorem sortByDependencies_permutation_witness:
  "distinct (map name pair_exts) \<and> length (filter isLocal pair_exts) \<le> 1 \<and>
   mset (sortByDependencies cycle_fs pair_exts) = mset pair_exts \<and>
   sortByDependencies cycle_fs pair_exts = [plain_ext ''b'' ''/m/b'' False, plain_ext ''a'' ''/m/a'' False]"
proof -
  have h1: "distinct (map name pair_exts)" by code_simp
  have h2: "length (filter isLocal pair_exts) \<le> 1" by code_simp
  have r: "sortByDependencies cycle_fs pair_exts = [plain_ext ''b'' ''/m/b'' False, plain_ext ''a'' ''/m/a'' False]"
    by code_simp
  show ?thesis
    using h1 h2 r sortByDependencies_permutation [OF h1 h2, where fs = cycle_fs] by blast
qed

text \<open>
  The keys that \<^verbatim>\<open>visit\<close> iterates over are the names of the three fields
  together.
\<close>

lemma set_object_keys: "set (object_keys ks) = set ks"
  by (simp add: object_keys_def)

lemma set_allDeps:
  "set (allDeps (Package runtime peer development)) = set runtime \<union> set peer \<union> set development"
  by (auto simp: allDeps_def set_object_keys)

lemma set_declaredDeps: "set (declaredDeps fs ext) = declaredNames fs ext"
proof (cases "existsSync fs (path_join fs (path ext) ''package.json'')")
  case False
  then show ?thesis by (simp add: declaredDeps_def declaredNames_def)
next
  case True
  show ?thesis
  proof (cases "readPackageJson fs (path_join fs (path ext) ''package.json'')")
    case PackageThrows
    then show ?thesis using True by (simp add: declaredDeps_def declaredNames_def)
  next
    case (Package runtime peer development)
    then show ?thesis
      using True set_allDeps [of runtime peer development]
      by (simp add: declaredDeps_def declaredNames_def)
  qed
qed

lemma deps_before_snoc:
  assumes "deps_before fs extensions xs"
    and "\<forall>d \<in> set (declaredDeps fs e). d \<in> name ` set extensions \<longrightarrow> d \<in> name ` set xs"
  shows "deps_before fs extensions (xs @ [e])"
  unfolding deps_before_def
proof (intro allI impI ballI)
  fix i d
  assume i: "i < length (xs @ [e])" and d: "d \<in> set (declaredDeps fs ((xs @ [e]) ! i))"
    and k: "d \<in> name ` set extensions"
  show "d \<in> name ` set (take i (xs @ [e]))"
  proof (cases "i < length xs")
    case True
    then show ?thesis using assms(1) d k by (simp add: deps_before_def nth_append)
  next
    case False
    then have "i = length xs" using i by simp
    then show ?thesis using assms(2) d k by simp
  qed
qed

lemma byName_None_iff: "byName extensions n = None \<longleftrightarrow> n \<notin> name ` set extensions"
  by (force simp: byName_def map_of_eq_None_iff)

lemma visit_deps_before:
  assumes ac: "acyclic (dep_rel fs extensions)"
  shows "ext \<in> set extensions \<Longrightarrow> sort_inv extensions s \<Longrightarrow> deps_before fs extensions (sorted_list s) \<Longrightarrow>
         (\<forall>v \<in> visiting s. (v, name ext) \<in> (dep_rel fs extensions)\<^sup>+) \<Longrightarrow>
         deps_before fs extensions (sorted_list (visit fs extensions ext s))"
    and "sort_inv extensions s \<Longrightarrow> deps_before fs extensions (sorted_list s) \<Longrightarrow>
         (\<forall>v \<in> visiting s. \<forall>d \<in> set deps. d \<in> name ` set extensions \<longrightarrow> (v, d) \<in> (dep_rel fs extensions)\<^sup>+) \<Longrightarrow>
         deps_before fs extensions (sorted_list (visitDeps fs extensions deps s)) \<and>
         (\<forall>d \<in> set deps. d \<in> name ` set extensions \<longrightarrow> d \<in> visited (visitDeps fs extensions deps s))"
proof (induction ext s and deps s rule: visit_cases_induct [where fs = fs and extensions = extensions])
  case (visit ext s)
  let ?R = "dep_rel fs extensions"
  show ?case
  proof (cases "name ext \<in> visited s \<or> name ext \<in> visiting s")
    case True
    then show ?thesis using visit.prems by (simp add: visit_skip)
  next
    case False
    let ?s1 = "enter ext s"
    let ?s2 = "visitDeps fs extensions (declaredDeps fs ext) ?s1"
    have inv1: "sort_inv extensions ?s1" using visit.prems False by (simp add: sort_inv_enter)
    have db1: "deps_before fs extensions (sorted_list ?s1)" using visit.prems by (simp add: enter_def)
    have reach: "\<forall>v \<in> visiting ?s1. \<forall>d \<in> set (declaredDeps fs ext).
                   d \<in> name ` set extensions \<longrightarrow> (v, d) \<in> ?R\<^sup>+"
    proof (intro ballI impI)
      fix v d
      assume v: "v \<in> visiting ?s1" and d: "d \<in> set (declaredDeps fs ext)" "d \<in> name ` set extensions"
      have edge: "(name ext, d) \<in> ?R"
        using visit.prems(1) d by (auto simp: dep_rel_def set_declaredDeps [symmetric])
      show "(v, d) \<in> ?R\<^sup>+"
      proof (cases "v = name ext")
        case True
        then show ?thesis using edge by auto
      next
        case False
        then have "v \<in> visiting s" using v by (simp add: enter_def)
        then have "(v, name ext) \<in> ?R\<^sup>+" using visit.prems(4) by blast
        then show ?thesis using edge by (rule trancl_into_trancl)
      qed
    qed
    from visit.IH [OF _ _ inv1 db1 reach] False
    have db2: "deps_before fs extensions (sorted_list ?s2)"
      and vd: "\<forall>d \<in> set (declaredDeps fs ext). d \<in> name ` set extensions \<longrightarrow> d \<in> visited ?s2"
      by blast+
    have inv2: "sort_inv extensions ?s2" using inv1 by (rule sort_inv_preserved(2))
    have "deps_before fs extensions (sorted_list ?s2 @ [ext])"
      using db2 vd inv2 by (intro deps_before_snoc) (auto simp: sort_inv_def)
    then show ?thesis using False by (simp add: visit_step finish_def)
  qed
next
  case (Nil s)
  then show ?case by simp
next
  case (Cons d ds s)
  let ?R = "dep_rel fs extensions"
  show ?case
  proof (cases "byName extensions d")
    case None
    then have "d \<notin> name ` set extensions" by (simp add: byName_None_iff)
    then show ?thesis using Cons.IH(1) [OF None] Cons.prems None by simp
  next
    case (Some dep)
    then have dep: "dep \<in> set extensions" "name dep = d" using byName_Some_name by blast+
    then have dK: "d \<in> name ` set extensions" by auto
    let ?s1 = "visit fs extensions dep s"
    have r: "\<forall>v \<in> visiting s. (v, name dep) \<in> ?R\<^sup>+" using Cons.prems(3) dK dep by simp
    have db1: "deps_before fs extensions (sorted_list ?s1)"
      using Cons.IH(2) [OF Some dep(1) Cons.prems(1,2) r] .
    have inv1: "sort_inv extensions ?s1" using dep Cons.prems(1) by (simp add: sort_inv_preserved)
    have vis1: "visiting ?s1 = visiting s" by (simp add: visiting_preserved)
    have "d \<notin> visiting s"
    proof
      assume "d \<in> visiting s"
      then have "(d, d) \<in> ?R\<^sup>+" using r dep by auto
      then show False using ac by (simp add: acyclic_def)
    qed
    then have d1: "d \<in> visited ?s1" using dep visit_visits [of dep s fs extensions] by simp
    have r1: "\<forall>v \<in> visiting ?s1. \<forall>d' \<in> set ds. d' \<in> name ` set extensions \<longrightarrow> (v, d') \<in> ?R\<^sup>+"
      using Cons.prems(3) vis1 by simp
    from Cons.IH(3) [OF Some inv1 db1 r1]
    have fin: "deps_before fs extensions (sorted_list (visitDeps fs extensions ds ?s1))"
      "\<forall>d' \<in> set ds. d' \<in> name ` set extensions \<longrightarrow> d' \<in> visited (visitDeps fs extensions ds ?s1)"
      by blast+
    have "d \<in> visited (visitDeps fs extensions ds ?s1)"
      using d1 visited_mono(2) [of ?s1 fs extensions ds] by blast
    then show ?thesis using fin Some by simp
  qed
qed

lemma fold_visit_deps_before:
  assumes "acyclic (dep_rel fs extensions)" "set roots \<subseteq> set extensions" "sort_inv extensions s" "visiting s = {}"
    "deps_before fs extensions (sorted_list s)"
  shows "deps_before fs extensions (sorted_list (fold (visit fs extensions) roots s))"
  using assms(2-)
proof (induction roots arbitrary: s)
  case Nil
  then show ?case by simp
next
  case (Cons r roots)
  let ?s1 = "visit fs extensions r s"
  have 1: "sort_inv extensions ?s1" using Cons.prems by (simp add: sort_inv_preserved)
  have 2: "visiting ?s1 = {}" using Cons.prems by (simp add: visiting_preserved)
  have 3: "deps_before fs extensions (sorted_list ?s1)"
    using Cons.prems by (intro visit_deps_before(1) [OF assms(1)]) auto
  from Cons.IH [OF _ 1 2 3] Cons.prems(1) show ?case by simp
qed

lemma final_state_deps_before:
  assumes "acyclic (dep_rel fs extensions)"
  shows "deps_before fs extensions (sortByDependencies fs extensions)"
proof -
  let ?s1 = "fold (visit fs extensions) (filter (\<lambda>e. \<not> isLocal e) extensions) init_state"
  have "deps_before fs extensions (sorted_list init_state)" by (simp add: init_state_def deps_before_def)
  then have 1: "deps_before fs extensions (sorted_list ?s1)"
    by (intro fold_visit_deps_before [OF assms] sort_inv_init visiting_init) auto
  have 2: "sort_inv extensions ?s1" "visiting ?s1 = {}" using nonlocal_roots by blast+
  show ?thesis
  proof (cases "find isLocal extensions")
    case None
    then show ?thesis using 1 by (simp add: sortByDependencies_final final_state_def)
  next
    case (Some l)
    then have "l \<in> set extensions" by (auto simp: find_Some_iff)
    then have "deps_before fs extensions (sorted_list (visit fs extensions l ?s1))"
      using 1 2 by (intro visit_deps_before(1) [OF assms]) auto
    then show ?thesis using Some by (simp add: sortByDependencies_final final_state_def)
  qed
qed

text \<open>
  C6. For every discovered set whose dependency relation is acyclic, and every
  pair of its extensions \<open>A\<close> and \<open>B\<close> such that the \<^verbatim>\<open>package.json\<close> of
  \<open>A\<close> has the name of \<open>B\<close> among its runtime, its peer or its
  development dependencies, \<open>B\<close> stands before \<open>A\<close> in the result of
  \<^verbatim>\<open>sortByDependencies\<close>.
\<close>

theorem sortByDependencies_dependency_first:
  assumes "distinct (map name extensions)" "length (filter isLocal extensions) \<le> 1"
    and "acyclic (dep_rel fs extensions)"
    and "A \<in> set extensions" "B \<in> set extensions"
    and "existsSync fs (path_join fs (path A) ''package.json'')"
    and "readPackageJson fs (path_join fs (path A) ''package.json'') = Package runtime peer development"
    and "name B \<in> set runtime \<union> set peer \<union> set development"
  shows "\<exists>xs ys zs. sortByDependencies fs extensions = xs @ B # ys @ A # zs"
proof -
  let ?r = "sortByDependencies fs extensions"
  have "name B \<in> declaredNames fs A" using assms(6,7,8) by (simp add: declaredNames_def)
  then have dB: "name B \<in> set (declaredDeps fs A)" by (simp only: set_declaredDeps)
  have set_r: "set ?r = set extensions" using assms(1,2) by (rule sortByDependencies_set)
  then obtain i where i: "i < length ?r" "?r ! i = A"
    using assms(4) by (metis in_set_conv_nth)
  have "name B \<in> name ` set (take i ?r)"
    using final_state_deps_before [OF assms(3)] i assms(5) dB by (auto simp: deps_before_def)
  then obtain B' where B': "B' \<in> set (take i ?r)" "name B' = name B" by auto
  then have "B' \<in> set extensions" using set_r by (auto dest: in_set_takeD)
  moreover have "inj_on name (set extensions)" using assms(1) by (simp add: distinct_map)
  ultimately have "B' = B" using B' assms(5) by (auto dest: inj_onD)
  then obtain xs ys where t: "take i ?r = xs @ B # ys" using B' by (auto dest: split_list)
  have "?r = take i ?r @ ?r ! i # drop (Suc i) ?r"
    using i(1) by (rule id_take_nth_drop)
  then have "?r = xs @ B # ys @ A # drop (Suc i) ?r" using t i by simp
  then show ?thesis by blast
qed

lemma trio_dep_rel: "dep_rel trio_fs trio_exts \<subseteq> {(''a'', ''b''), (''b'', ''c'')}"
proof -
  have a: "declaredNames trio_fs (plain_ext ''a'' ''/m/a'' False) = {''b''}"
    by (simp add: declaredNames_def trio_fs_def packages_fs_def plain_ext_def posix_join_def)
  have b: "declaredNames trio_fs (plain_ext ''b'' ''/m/b'' False) = {''c''}"
    by (simp add: declaredNames_def trio_fs_def packages_fs_def plain_ext_def posix_join_def)
  have c: "declaredNames trio_fs (plain_ext ''c'' ''/m/c'' False) = {''left-pad''}"
    by (simp add: declaredNames_def trio_fs_def packages_fs_def plain_ext_def posix_join_def)
  have n: "name (plain_ext ''a'' ''/m/a'' False) = ''a''" "name (plain_ext ''b'' ''/m/b'' False) = ''b''"
    "name (plain_ext ''c'' ''/m/c'' False) = ''c''"
    by (simp_all add: plain_ext_def)
  have names: "name ` set trio_exts = {''a'', ''b'', ''c''}"
    using n by (simp add: trio_exts_def)
  show ?thesis
  proof
    fix x assume "x \<in> dep_rel trio_fs trio_exts"
    then obtain e d where x: "x = (name e, d)" and e: "e \<in> set trio_exts"
      and d: "d \<in> declaredNames trio_fs e" and k: "d \<in> name ` set trio_exts"
      unfolding dep_rel_def by blast
    from e consider "e = plain_ext ''a'' ''/m/a'' False" | "e = plain_ext ''b'' ''/m/b'' False"
      | "e = plain_ext ''c'' ''/m/c'' False"
      by (auto simp: trio_exts_def)
    then show "x \<in> {(''a'', ''b''), (''b'', ''c'')}"
    proof cases
      case 1
      then show ?thesis using x d a n by simp
    next
      case 2
      then show ?thesis using x d b n by simp
    next
      case 3
      then have "d = ''left-pad''" using d c by simp
      then show ?thesis using k names by simp
    qed
  qed
qed

lemma trio_acyclic: "acyclic (dep_rel trio_fs trio_exts)"
proof -
  let ?rank = "\<lambda>n. if n = ''a'' then 2 else if n = ''b'' then 1 else (0 :: nat)"
  have "acyclic {(''a'', ''b''), (''b'', ''c'')}"
    by (rule acyclicI_order [where f = ?rank]) auto
  then show ?thesis using trio_dep_rel by (rule acyclic_subset)
qed

text \<open>
  The input lists \<^verbatim>\<open>a\<close>, \<^verbatim>\<open>b\<close>, \<^verbatim>\<open>c\<close>; the peer dependency puts \<^verbatim>\<open>b\<close> before
  \<^verbatim>\<open>a\<close> and the development dependency puts \<^verbatim>\<open>c\<close> before \<^verbatim>\<open>b\<close>.
\<close>

theorem sortByDependencies_dependency_first_witness:
  "distinct (map name trio_exts) \<and> length (filter isLocal trio_exts) \<le> 1 \<and>
   acyclic (dep_rel trio_fs trio_exts) \<and>
   plain_ext ''a'' ''/m/a'' False \<in> set trio_exts \<and> plain_ext ''b'' ''/m/b'' False \<in> set trio_exts \<and>
   plain_ext ''c'' ''/m/c'' False \<in> set trio_exts \<and>
   existsSync trio_fs (path_join trio_fs (path (plain_ext ''a'' ''/m/a'' False)) ''package.json'') \<and>
   readPackageJson trio_fs (path_join trio_fs (path (plain_ext ''a'' ''/m/a'' False)) ''package.json'') =
     Package [] [''b''] [] \<and>
   name (plain_ext ''b'' ''/m/b'' False) \<in> set [] \<union> set [''b''] \<union> set [] \<and>
   existsSync trio_fs (path_join trio_fs (path (plain_ext ''b'' ''/m/b'' False)) ''package.json'') \<and>
   readPackageJson trio_fs (path_join trio_fs (path (plain_ext ''b'' ''/m/b'' False)) ''package.json'') =
     Package [] [] [''c''] \<and>
   name (plain_ext ''c'' ''/m/c'' False) \<in> set [] \<union> set [] \<union> set [''c''] \<and>
   (\<exists>xs ys zs. sortByDependencies trio_fs trio_exts =
      xs @ plain_ext ''b'' ''/m/b'' False # ys @ plain_ext ''a'' ''/m/a'' False # zs) \<and>
   (\<exists>xs ys zs. sortByDependencies trio_fs trio_exts =
      xs @ plain_ext ''c'' ''/m/c'' False # ys @ plain_ext ''b'' ''/m/b'' False # zs) \<and>
   sortByDependencies trio_fs trio_exts =
     [plain_ext ''c'' ''/m/c'' False, plain_ext ''b'' ''/m/b'' False, plain_ext ''a'' ''/m/a'' False]"
proof -
  have h1: "distinct (map name trio_exts)" by code_simp
  have h2: "length (filter isLocal trio_exts) \<le> 1" by code_simp
  have a: "plain_ext ''a'' ''/m/a'' False \<in> set trio_exts" by code_simp
  have b: "plain_ext ''b'' ''/m/b'' False \<in> set trio_exts" by code_simp
  have c: "plain_ext ''c'' ''/m/c'' False \<in> set trio_exts" by code_simp
  have ea: "existsSync trio_fs (path_join trio_fs (path (plain_ext ''a'' ''/m/a'' False)) ''package.json'')"
    by code_simp
  have ra: "readPackageJson trio_fs (path_join trio_fs (path (plain_ext ''a'' ''/m/a'' False)) ''package.json'') =
              Package [] [''b''] []" by code_simp
  have na: "name (plain_ext ''b'' ''/m/b'' False) \<in> set [] \<union> set [''b''] \<union> set []"
    by (simp add: plain_ext_def)
  have eb: "existsSync trio_fs (path_join trio_fs (path (plain_ext ''b'' ''/m/b'' False)) ''package.json'')"
    by code_simp
  have rb: "readPackageJson trio_fs (path_join trio_fs (path (plain_ext ''b'' ''/m/b'' False)) ''package.json'') =
              Package [] [] [''c'']" by code_simp
  have nb: "name (plain_ext ''c'' ''/m/c'' False) \<in> set [] \<union> set [] \<union> set [''c'']"
    by (simp add: plain_ext_def)
  have r: "sortByDependencies trio_fs trio_exts =
             [plain_ext ''c'' ''/m/c'' False, plain_ext ''b'' ''/m/b'' False, plain_ext ''a'' ''/m/a'' False]"
    by code_simp
  show ?thesis
    using h1 h2 trio_acyclic a b c ea ra na eb rb nb r
      sortByDependencies_dependency_first [OF h1 h2 trio_acyclic a b ea ra na]
      sortByDependencies_dependency_first [OF h1 h2 trio_acyclic b c eb rb nb]
    by (intro conjI)
qed

text \<open>
  C1. The claim: whenever the discovered set has a local extension, the result
  of \<^verbatim>\<open>sortByDependencies\<close> has it after every extension that is not local,
  also when one of those declares the name of the local extension as a
  dependency. The code, on the project \<^verbatim>\<open>app\<close> with the installed extension
  \<^verbatim>\<open>plugin\<close> that depends on \<^verbatim>\<open>app\<close>: the visit of \<^verbatim>\<open>plugin\<close> visits its
  dependency first, so the local extension is emitted before \<^verbatim>\<open>plugin\<close>.
\<close>

theorem sortByDependencies_local_before_dependent:
  "distinct (map name plugin_on_app) \<and> length (filter isLocal plugin_on_app) = 1 \<and>
   declaredDeps plugin_on_app_fs (plain_ext ''plugin'' ''/app/node_modules/plugin'' False) = [''app''] \<and>
   map (\<lambda>e. (name e, isLocal e)) (sortByDependencies plugin_on_app_fs plugin_on_app) =
     [(''app'', True), (''plugin'', False)]"
  by code_simp

section \<open>Properties of discovery\<close>

lemma extends_refl: "extends st st"
  by (simp add: extends_def)

lemma extendsE:
  assumes "extends st st'"
  obtains new where "found st' = found st @ new"
    "\<forall>p \<in> set new. \<not> isLocal (snd p) \<and> name (snd p) = fst p \<and> fst p \<notin> fst ` set (found st)"
    "distinct (map fst new)"
  using assms unfolding extends_def by (elim exE conjE)

lemma extendsI:
  assumes "found st' = found st @ new"
    "\<forall>p \<in> set new. \<not> isLocal (snd p) \<and> name (snd p) = fst p \<and> fst p \<notin> fst ` set (found st)"
    "distinct (map fst new)"
  shows "extends st st'"
  unfolding extends_def using assms by (intro exI [of _ new] conjI)

lemma extends_trans:
  assumes "extends st st'" "extends st' st''"
  shows "extends st st''"
proof -
  from assms(1) obtain n1 where 1: "found st' = found st @ n1"
    "\<forall>p \<in> set n1. \<not> isLocal (snd p) \<and> name (snd p) = fst p \<and> fst p \<notin> fst ` set (found st)"
    "distinct (map fst n1)"
    by (rule extendsE)
  from assms(2) obtain n2 where 2: "found st'' = found st' @ n2"
    "\<forall>p \<in> set n2. \<not> isLocal (snd p) \<and> name (snd p) = fst p \<and> fst p \<notin> fst ` set (found st')"
    "distinct (map fst n2)"
    by (rule extendsE)
  have a: "found st'' = found st @ (n1 @ n2)" using 1(1) 2(1) by simp
  have sub: "fst ` set (found st) \<subseteq> fst ` set (found st')" "fst ` set n1 \<subseteq> fst ` set (found st')"
    using 1(1) by auto
  have b: "\<forall>p \<in> set (n1 @ n2). \<not> isLocal (snd p) \<and> name (snd p) = fst p \<and> fst p \<notin> fst ` set (found st)"
  proof
    fix p assume "p \<in> set (n1 @ n2)"
    then consider "p \<in> set n1" | "p \<in> set n2" by auto
    then show "\<not> isLocal (snd p) \<and> name (snd p) = fst p \<and> fst p \<notin> fst ` set (found st)"
    proof cases
      case 1
      then show ?thesis using \<open>\<forall>p \<in> set n1. _\<close> by blast
    next
      case 2
      then have "\<not> isLocal (snd p) \<and> name (snd p) = fst p \<and> fst p \<notin> fst ` set (found st')"
        using \<open>\<forall>p \<in> set n2. _\<close> by blast
      then show ?thesis using sub(1) by blast
    qed
  qed
  have "fst ` set n1 \<inter> fst ` set n2 = {}"
  proof (rule ccontr)
    assume "fst ` set n1 \<inter> fst ` set n2 \<noteq> {}"
    then obtain k where k: "k \<in> fst ` set n1" "k \<in> fst ` set n2" by auto
    from k(2) obtain p where p: "p \<in> set n2" "fst p = k" by auto
    from p(1) 2(2) have "fst p \<notin> fst ` set (found st')" by simp
    moreover from k(1) sub(2) have "k \<in> fst ` set (found st')" by (rule subsetD [rotated])
    ultimately show False using p(2) by simp
  qed
  then have c: "distinct (map fst (n1 @ n2))" using 1(3) 2(3) by simp
  from a b c show ?thesis by (rule extendsI)
qed

lemma map_has_iff: "map_has m k \<longleftrightarrow> k \<in> fst ` set m"
  by (induction m) auto

lemma map_set_new: "\<not> map_has m k \<Longrightarrow> map_set m k v = m @ [(k, v)]"
  by (induction m) auto

lemma found_log [simp]: "found (log msg st) = found st"
  by (simp add: log_def)

lemma messages_log [simp]: "messages (log msg st) = messages st @ [msg]"
  by (simp add: log_def)

lemma extends_log [simp]: "extends st (log msg st') \<longleftrightarrow> extends st st'"
  by (simp add: extends_def log_def)

lemma extends_register:
  assumes "\<not> map_has (found st) nm" "name e = nm" "\<not> isLocal e"
  shows "extends st (st\<lparr>found := map_set (found st) nm e\<rparr>)"
proof -
  have "found (st\<lparr>found := map_set (found st) nm e\<rparr>) = found st @ [(nm, e)]"
    using assms(1) by (simp add: map_set_new)
  moreover have "nm \<notin> fst ` set (found st)" using assms(1) by (simp add: map_has_iff)
  ultimately show ?thesis using assms(2,3) unfolding extends_def
    by (intro exI [of _ "[(nm, e)]"]) simp
qed

lemma extends_checkManifest: "extends st (checkManifest fullPath dir st)"
proof (cases "existsNode (child dir ''titan.json'')")
  case False
  then show ?thesis by (simp add: checkManifest_def extends_refl)
next
  case True
  show ?thesis
  proof (cases "readJson (child dir ''titan.json'')")
    case ReadThrows
    then show ?thesis using True by (simp add: checkManifest_def extends_refl)
  next
    case JsonNull
    then show ?thesis using True by (simp add: checkManifest_def extends_refl)
  next
    case (Manifest json)
    show ?thesis
    proof (cases "json_name json")
      case None
      then show ?thesis using True Manifest by (simp add: checkManifest_def extends_refl)
    next
      case (Some nm)
      show ?thesis
      proof (cases "nm \<noteq> [] \<and> \<not> map_has (found st) nm")
        case False
        then show ?thesis using True Manifest Some by (auto simp: checkManifest_def extends_refl)
      next
        case reg: True
        have "extends st (st\<lparr>found := map_set (found st) nm
                \<lparr>name = nm, path = fullPath, titanJson = json, isLocal = False\<rparr>\<rparr>)"
          using reg by (intro extends_register) simp_all
        then show ?thesis using True Manifest Some reg by (simp add: checkManifest_def)
      qed
    qed
  qed
qed

declare scanNodeModules.simps [simp del] scanEntries.simps [simp del]

lemma extends_scan:
  "extends st (scanNodeModules join dir node st)"
  "extends st (scanEntries join dir entries st)"
proof (induction join dir node st and join dir entries st rule: scanNodeModules_scanEntries.induct)
  case (1 join dir node st)
  then show ?case by (cases "readdirSync node") (simp_all add: scanNodeModules.simps extends_refl)
next
  case (2 join dir st)
  show ?case by (simp add: scanEntries.simps extends_refl)
next
  case (3 join dir entry node rest st)
  show ?case
  proof (cases "startsWith entry ''.'' \<or> entry = ''.bin''")
    case True
    then show ?thesis using "3.IH"(1) by (simp add: scanEntries.simps)
  next
    case skip: False
    show ?thesis
    proof (cases "isDirectory node")
      case None
      then show ?thesis using skip "3.IH"(2) [OF skip refl None] by (simp add: scanEntries.simps)
    next
      case (Some b)
      show ?thesis
      proof (cases b)
        case False
        then have bF: "b = False" by simp
        show ?thesis using skip Some bF "3.IH"(7) [OF skip refl Some bF]
          by (simp add: scanEntries.simps)
      next
        case True
        then have bT: "b = True" by simp
        show ?thesis
        proof (cases "startsWith entry ''@''")
          case scoped: True
          have 1: "extends st (scanNodeModules join (join dir entry) node st)"
            using "3.IH"(3) [OF skip refl Some bT scoped] .
          have 2: "extends (scanNodeModules join (join dir entry) node st)
                     (scanEntries join dir rest (scanNodeModules join (join dir entry) node st))"
            using "3.IH"(4) [OF skip refl Some bT scoped] .
          have "scanEntries join dir ((entry, node) # rest) st =
                  scanEntries join dir rest (scanNodeModules join (join dir entry) node st)"
            using skip Some bT scoped by (simp add: scanEntries.simps)
          then show ?thesis using extends_trans [OF 1 2] by simp
        next
          case False
          let ?fp = "join dir entry"
          let ?st1 = "checkManifest ?fp node st"
          let ?st2 = "(case child node ''node_modules'' of
                         None \<Rightarrow> ?st1
                       | Some sub \<Rightarrow>
                           if existsNode (Some sub)
                           then scanNodeModules join (join ?fp ''node_modules'') sub ?st1 else ?st1)"
          have 1: "extends st ?st1" by (rule extends_checkManifest)
          have 2: "extends ?st1 ?st2"
          proof (cases "child node ''node_modules''")
            case None
            then show ?thesis by (simp add: extends_refl)
          next
            case (Some sub)
            then show ?thesis
              using "3.IH"(5) [OF skip refl \<open>isDirectory node = Some b\<close> bT False refl refl Some]
              by (simp add: extends_refl)
          qed
          have 3: "extends ?st2 (scanEntries join dir rest ?st2)"
            using "3.IH"(6) [OF skip refl Some bT False refl refl refl] .
          have "scanEntries join dir ((entry, node) # rest) st = scanEntries join dir rest ?st2"
            using skip Some bT False by (simp add: scanEntries.simps Let_def)
          then show ?thesis using extends_trans [OF extends_trans [OF 1 2] 3] by simp
        qed
      qed
    qed
  qed
qed

lemma discoverExtensions_extends:
  "\<exists>st2. extends (checkLocalManifest rootDir root init_scan) st2 \<and>
         discoverExtensions join rootDir root = (map_values (found st2), messages st2)"
proof (cases "child root ''node_modules''")
  case None
  then show ?thesis
    by (intro exI [of _ "checkLocalManifest rootDir root init_scan"])
       (simp add: discoverExtensions_def init_scan_def extends_refl Let_def)
next
  case (Some sub)
  show ?thesis
  proof (cases "existsNode (Some sub)")
    case True
    then show ?thesis using Some
      by (intro exI [of _ "scanNodeModules join (join rootDir ''node_modules'') sub
                             (checkLocalManifest rootDir root init_scan)"])
         (simp add: discoverExtensions_def init_scan_def extends_scan Let_def)
  next
    case False
    then show ?thesis using Some
      by (intro exI [of _ "checkLocalManifest rootDir root init_scan"])
         (simp add: discoverExtensions_def init_scan_def extends_refl Let_def)
  qed
qed

lemma checkLocalManifest_found:
  "found (checkLocalManifest rootDir root init_scan) =
     (if existsNode (child root ''titan.json'')
      then (case readJson (child root ''titan.json'') of
              Manifest json \<Rightarrow>
                (case json_name json of
                   Some nm \<Rightarrow>
                     if nm \<noteq> []
                     then [(nm, \<lparr>name = nm, path = rootDir, titanJson = json, isLocal = True\<rparr>)]
                     else []
                 | None \<Rightarrow> [])
            | _ \<Rightarrow> [])
      else [])"
  by (simp add: checkLocalManifest_def init_scan_def split: manifest_read.splits option.splits)

lemma checkLocalManifest_found_cases:
  "found (checkLocalManifest rootDir root init_scan) = [] \<or>
   (\<exists>nm e. found (checkLocalManifest rootDir root init_scan) = [(nm, e)] \<and> name e = nm)"
  by (simp add: checkLocalManifest_found split: manifest_read.splits option.splits)

lemma extends_result:
  assumes "extends st1 st2"
  obtains new where "map_values (found st2) = map_values (found st1) @ new"
    "\<forall>e \<in> set new. \<not> isLocal e \<and> name e \<notin> fst ` set (found st1)"
    "distinct (map name new)"
proof -
  from assms obtain n where n: "found st2 = found st1 @ n"
    "\<forall>p \<in> set n. \<not> isLocal (snd p) \<and> name (snd p) = fst p \<and> fst p \<notin> fst ` set (found st1)"
    "distinct (map fst n)"
    by (rule extendsE)
  have "map name (map snd n) = map fst n" using n(2) by simp
  then have "distinct (map name (map snd n))" using n(3) by (simp only:)
  moreover have "map_values (found st2) = map_values (found st1) @ map snd n"
    using n(1) by (simp add: map_values_def)
  moreover have "\<forall>e \<in> set (map snd n). \<not> isLocal e \<and> name e \<notin> fst ` set (found st1)"
    using n(2) by auto
  ultimately show ?thesis using that by blast
qed

lemma discoverExtensions_shape:
  obtains new where
    "fst (discoverExtensions join rootDir root) =
       map_values (found (checkLocalManifest rootDir root init_scan)) @ new"
    "\<forall>e \<in> set new. \<not> isLocal e \<and> name e \<notin> fst ` set (found (checkLocalManifest rootDir root init_scan))"
    "distinct (map name new)"
proof -
  obtain st2 where st2: "extends (checkLocalManifest rootDir root init_scan) st2"
    "discoverExtensions join rootDir root = (map_values (found st2), messages st2)"
    using discoverExtensions_extends by blast
  from st2(1) obtain new where new:
    "map_values (found st2) = map_values (found (checkLocalManifest rootDir root init_scan)) @ new"
    "\<forall>e \<in> set new. \<not> isLocal e \<and> name e \<notin> fst ` set (found (checkLocalManifest rootDir root init_scan))"
    "distinct (map name new)"
    by (rule extends_result)
  show ?thesis using that [OF _ new(2,3)] new(1) st2(2) by simp
qed

text \<open>
  What one manifest check preserves, a whole scan preserves.
\<close>

lemma scan_invariant:
  assumes step: "\<And>fullPath dir st. P st \<Longrightarrow> P (checkManifest fullPath dir st)"
  shows "P st \<Longrightarrow> P (scanNodeModules join dir node st)"
    and "P st \<Longrightarrow> P (scanEntries join dir entries st)"
proof (induction join dir node st and join dir entries st rule: scanNodeModules_scanEntries.induct)
  case (1 join dir node st)
  then show ?case by (cases "readdirSync node") (simp_all add: scanNodeModules.simps)
next
  case (2 join dir st)
  then show ?case by (simp add: scanEntries.simps)
next
  case (3 join dir entry node rest st)
  show ?case
  proof (cases "startsWith entry ''.'' \<or> entry = ''.bin''")
    case True
    then show ?thesis using "3.IH"(1) "3.prems" by (simp add: scanEntries.simps)
  next
    case skip: False
    show ?thesis
    proof (cases "isDirectory node")
      case None
      then show ?thesis using skip "3.IH"(2) [OF skip refl None] "3.prems" by (simp add: scanEntries.simps)
    next
      case (Some b)
      show ?thesis
      proof (cases b)
        case False
        then have bF: "b = False" by simp
        show ?thesis using skip Some bF "3.IH"(7) [OF skip refl Some bF] "3.prems"
          by (simp add: scanEntries.simps)
      next
        case True
        then have bT: "b = True" by simp
        show ?thesis
        proof (cases "startsWith entry ''@''")
          case scoped: True
          have 1: "P (scanNodeModules join (join dir entry) node st)"
            using "3.IH"(3) [OF skip refl Some bT scoped] "3.prems" .
          have 2: "P (scanEntries join dir rest (scanNodeModules join (join dir entry) node st))"
            using "3.IH"(4) [OF skip refl Some bT scoped 1] .
          have "scanEntries join dir ((entry, node) # rest) st =
                  scanEntries join dir rest (scanNodeModules join (join dir entry) node st)"
            using skip Some bT scoped by (simp add: scanEntries.simps)
          then show ?thesis using 2 by simp
        next
          case False
          let ?fp = "join dir entry"
          let ?st1 = "checkManifest ?fp node st"
          let ?st2 = "(case child node ''node_modules'' of
                         None \<Rightarrow> ?st1
                       | Some sub \<Rightarrow>
                           if existsNode (Some sub)
                           then scanNodeModules join (join ?fp ''node_modules'') sub ?st1 else ?st1)"
          have 1: "P ?st1" using "3.prems" by (rule step)
          have 2: "P ?st2"
          proof (cases "child node ''node_modules''")
            case None
            then show ?thesis using 1 by simp
          next
            case (Some sub)
            then show ?thesis
              using "3.IH"(5) [OF skip refl \<open>isDirectory node = Some b\<close> bT False refl refl Some] 1
              by simp
          qed
          have 3: "P (scanEntries join dir rest ?st2)"
            using "3.IH"(6) [OF skip refl Some bT False refl refl refl 2] .
          have "scanEntries join dir ((entry, node) # rest) st = scanEntries join dir rest ?st2"
            using skip Some bT False by (simp add: scanEntries.simps Let_def)
          then show ?thesis using 3 by simp
        qed
      qed
    qed
  qed
qed

lemma set_map_set: "set (map_set m k v) \<subseteq> insert (k, v) (set m)"
  by (induction m) (auto split: if_splits)

lemma named_entries_log [simp]: "named_entries (log msg st) = named_entries st"
  by (simp add: named_entries_def)

lemma named_entries_register:
  assumes "named_entries st" "name e = nm" "nm \<noteq> []" "json_name (titanJson e) = Some nm"
  shows "named_entries (st\<lparr>found := map_set (found st) nm e\<rparr>)"
  using assms set_map_set [of "found st" nm e] unfolding named_entries_def by auto

lemma named_entries_checkManifest: "named_entries st \<Longrightarrow> named_entries (checkManifest fullPath dir st)"
  by (auto simp: checkManifest_def named_entries_register split: manifest_read.splits option.splits)

lemma named_entries_checkLocalManifest:
  "named_entries st \<Longrightarrow> named_entries (checkLocalManifest rootDir dir st)"
  by (auto simp: checkLocalManifest_def named_entries_register split: manifest_read.splits option.splits)

lemma discoverExtensions_named:
  "\<forall>e \<in> set (fst (discoverExtensions join rootDir root)).
     name e \<noteq> [] \<and> json_name (titanJson e) = Some (name e)"
proof -
  have 0: "named_entries init_scan" by (simp add: named_entries_def init_scan_def)
  then have 1: "named_entries (checkLocalManifest rootDir root init_scan)"
    by (rule named_entries_checkLocalManifest)
  have 2: "named_entries (scanNodeModules join d sub (checkLocalManifest rootDir root init_scan))" for d sub
    using named_entries_checkManifest 1 by (rule scan_invariant(1))
  obtain st2 where st2: "named_entries st2" "fst (discoverExtensions join rootDir root) = map_values (found st2)"
  proof (cases "child root ''node_modules''")
    case None
    then show ?thesis using that [OF 1] by (simp add: discoverExtensions_def Let_def init_scan_def)
  next
    case (Some sub)
    show ?thesis
    proof (cases "existsNode (Some sub)")
      case True
      then show ?thesis using that [OF 2] Some by (simp add: discoverExtensions_def Let_def init_scan_def)
    next
      case False
      then show ?thesis using that [OF 1] Some by (simp add: discoverExtensions_def Let_def init_scan_def)
    qed
  qed
  then show ?thesis by (auto simp: named_entries_def map_values_def)
qed

text \<open>
  C4. For every discovery run: at most one returned entry is local; no two
  returned entries have the same name; when the project root has a manifest
  with a name, the entry with that name is the local one, registered first,
  and every other entry is not local and has another name; and the first one
  registered wins, since a scan of the dependency tree keeps every registered
  entry in its place and only appends entries that are not local and whose
  name is not registered yet.
\<close>

theorem discoverExtensions_unique_names:
  "length (filter isLocal (fst (discoverExtensions join rootDir root))) \<le> 1 \<and>
   distinct (map name (fst (discoverExtensions join rootDir root))) \<and>
   (\<forall>json nm.
      existsNode (child root ''titan.json'') \<longrightarrow>
      readJson (child root ''titan.json'') = Manifest json \<longrightarrow>
      json_name json = Some nm \<longrightarrow> nm \<noteq> [] \<longrightarrow>
      (\<exists>rest. fst (discoverExtensions join rootDir root) =
                 \<lparr>name = nm, path = rootDir, titanJson = json, isLocal = True\<rparr> # rest \<and>
              (\<forall>e \<in> set rest. \<not> isLocal e \<and> name e \<noteq> nm))) \<and>
   (\<forall>st dir node. extends st (scanNodeModules join dir node st))"
proof -
  let ?L = "found (checkLocalManifest rootDir root init_scan)"
  obtain new where new:
    "fst (discoverExtensions join rootDir root) = map_values ?L @ new"
    "\<forall>e \<in> set new. \<not> isLocal e \<and> name e \<notin> fst ` set ?L"
    "distinct (map name new)"
    by (rule discoverExtensions_shape)
  have nl: "filter isLocal new = []" using new(2) by (simp add: filter_empty_conv)
  have a: "length (filter isLocal (fst (discoverExtensions join rootDir root))) \<le> 1"
    using checkLocalManifest_found_cases [of rootDir root] nl new(1)
    by (auto simp: map_values_def)
  have b: "distinct (map name (fst (discoverExtensions join rootDir root)))"
  proof -
    from checkLocalManifest_found_cases [of rootDir root]
    consider "?L = []" | nm e where "?L = [(nm, e)]" "name e = nm" by blast
    then show ?thesis
    proof cases
      case 1
      then show ?thesis using new(1,3) by (simp add: map_values_def)
    next
      case 2
      then have "\<forall>x \<in> set new. name x \<noteq> nm" using new(2) by simp
      then show ?thesis using 2 new(1,3) by (auto simp: map_values_def)
    qed
  qed
  have c: "\<exists>rest. fst (discoverExtensions join rootDir root) =
                 \<lparr>name = nm, path = rootDir, titanJson = json, isLocal = True\<rparr> # rest \<and>
              (\<forall>e \<in> set rest. \<not> isLocal e \<and> name e \<noteq> nm)"
    if "existsNode (child root ''titan.json'')" "readJson (child root ''titan.json'') = Manifest json"
       "json_name json = Some nm" "nm \<noteq> []" for json nm
  proof -
    have L: "?L = [(nm, \<lparr>name = nm, path = rootDir, titanJson = json, isLocal = True\<rparr>)]"
      using that by (simp add: checkLocalManifest_found)
    then have "\<forall>e \<in> set new. \<not> isLocal e \<and> name e \<noteq> nm" using new(2) by simp
    then show ?thesis using L new(1) by (simp add: map_values_def)
  qed
  have d: "\<forall>st dir node. extends st (scanNodeModules join dir node st)"
    by (simp add: extends_scan)
  from a b c d show ?thesis by blast
qed

theorem discoverExtensions_unique_names_witness:
  "existsNode (child collide_root ''titan.json'') \<and>
   readJson (child collide_root ''titan.json'') = Manifest (plain_manifest (Some ''x'')) \<and>
   json_name (plain_manifest (Some ''x'')) = Some ''x'' \<and> ''x'' \<noteq> [] \<and>
   length (filter isLocal (fst (discoverExtensions posix_join ''/app'' collide_root))) \<le> 1 \<and>
   distinct (map name (fst (discoverExtensions posix_join ''/app'' collide_root))) \<and>
   fst (discoverExtensions posix_join ''/app'' collide_root) =
     [plain_ext ''x'' ''/app'' True, plain_ext ''y'' ''/app/node_modules/y'' False]"
proof -
  have h1: "existsNode (child collide_root ''titan.json'')" by code_simp
  have h2: "readJson (child collide_root ''titan.json'') = Manifest (plain_manifest (Some ''x''))" by code_simp
  have h3: "json_name (plain_manifest (Some ''x'')) = Some ''x''" by code_simp
  have h4: "''x'' \<noteq> []" by simp
  have r: "fst (discoverExtensions posix_join ''/app'' collide_root) =
             [plain_ext ''x'' ''/app'' True, plain_ext ''y'' ''/app/node_modules/y'' False]"
    by code_simp
  show ?thesis
    using h1 h2 h3 h4 r discoverExtensions_unique_names [where join = posix_join and rootDir = "''/app''" and root = collide_root]
    by blast
qed

text \<open>
  C3. The claim: a directory whose manifest is present but malformed
  (unparseable, or parseable without the field \<^verbatim>\<open>name\<close>) yields no extension,
  and in both cases a warning is logged. The code logs only in its
  \<^verbatim>\<open>catch\<close>: on the project \<open>nameless_root\<close>, whose manifest parses and has
  no name and whose installed package has a manifest with the empty name,
  discovery yields no extension and logs nothing.
\<close>

theorem nameless_manifest_no_warning:
  "existsNode (child nameless_root ''titan.json'') \<and>
   readJson (child nameless_root ''titan.json'') = Manifest (plain_manifest None) \<and>
   json_name (plain_manifest None) = None \<and>
   discoverExtensions posix_join ''/app'' nameless_root = ([], [])"
  by code_simp

text \<open>
  C3, as the code has it. For a directory whose manifest is present: when
  reading or parsing it throws (also when it parses to \<^verbatim>\<open>null\<close>), no extension
  is registered for the directory and a warning is logged; when it parses but
  has no name, or the empty name, no extension is registered and nothing is
  logged. Both for the project root and for a directory of the dependency
  tree. And over a whole discovery run: every extension returned has a name
  that is not empty and is the name its manifest gives, so none comes from a
  manifest without a name.
\<close>

theorem malformed_manifest_handling:
  assumes "existsNode (child dir ''titan.json'')"
  shows "(readJson (child dir ''titan.json'') = ReadThrows \<or>
          readJson (child dir ''titan.json'') = JsonNull \<longrightarrow>
            found (checkManifest fullPath dir st) = found st \<and>
            messages (checkManifest fullPath dir st) =
              messages st @ [''Warning: Invalid titan.json in '' @ fullPath] \<and>
            found (checkLocalManifest rootDir dir st) = found st \<and>
            messages (checkLocalManifest rootDir dir st) =
              messages st @ [''Warning: Invalid titan.json in project root'']) \<and>
         (\<forall>json. readJson (child dir ''titan.json'') = Manifest json \<longrightarrow>
            json_name json = None \<or> json_name json = Some [] \<longrightarrow>
            checkManifest fullPath dir st = st \<and> checkLocalManifest rootDir dir st = st) \<and>
         (\<forall>join root. \<forall>e \<in> set (fst (discoverExtensions join rootDir root)).
            name e \<noteq> [] \<and> json_name (titanJson e) = Some (name e))"
proof (intro conjI impI allI)
  assume "readJson (child dir ''titan.json'') = ReadThrows \<or> readJson (child dir ''titan.json'') = JsonNull"
  then have c: "checkManifest fullPath dir st = log (''Warning: Invalid titan.json in '' @ fullPath) st"
    and l: "checkLocalManifest rootDir dir st = log ''Warning: Invalid titan.json in project root'' st"
    using assms by (auto simp: checkManifest_def checkLocalManifest_def)
  show "found (checkManifest fullPath dir st) = found st" unfolding c by simp
  show "messages (checkManifest fullPath dir st) = messages st @ [''Warning: Invalid titan.json in '' @ fullPath]"
    unfolding c by simp
  show "found (checkLocalManifest rootDir dir st) = found st" unfolding l by simp
  show "messages (checkLocalManifest rootDir dir st) = messages st @ [''Warning: Invalid titan.json in project root'']"
    unfolding l by simp
next
  fix json
  assume m: "readJson (child dir ''titan.json'') = Manifest json"
    and n: "json_name json = None \<or> json_name json = Some []"
  show "checkManifest fullPath dir st = st" using assms m n by (auto simp: checkManifest_def)
  show "checkLocalManifest rootDir dir st = st" using assms m n by (auto simp: checkLocalManifest_def)
next
  fix join root
  show "\<forall>e \<in> set (fst (discoverExtensions join rootDir root)).
          name e \<noteq> [] \<and> json_name (titanJson e) = Some (name e)"
    by (rule discoverExtensions_named)
qed

theorem malformed_manifest_handling_witness:
  "existsNode (child broken_dir ''titan.json'') \<and>
   readJson (child broken_dir ''titan.json'') = ReadThrows \<and>
   found (checkManifest ''/app/node_modules/p'' broken_dir init_scan) = [] \<and>
   messages (checkManifest ''/app/node_modules/p'' broken_dir init_scan) =
     [''Warning: Invalid titan.json in /app/node_modules/p''] \<and>
   messages (checkLocalManifest ''/app'' broken_dir init_scan) =
     [''Warning: Invalid titan.json in project root''] \<and>
   existsNode (child nameless_dir ''titan.json'') \<and>
   readJson (child nameless_dir ''titan.json'') = Manifest (plain_manifest None) \<and>
   json_name (plain_manifest None) = None \<and>
   checkManifest ''/app/node_modules/p'' nameless_dir init_scan = init_scan \<and>
   checkLocalManifest ''/app'' nameless_dir init_scan = init_scan"
proof -
  have b1: "existsNode (child broken_dir ''titan.json'')" by code_simp
  have b2: "readJson (child broken_dir ''titan.json'') = ReadThrows" by code_simp
  have n1: "existsNode (child nameless_dir ''titan.json'')" by code_simp
  have n2: "readJson (child nameless_dir ''titan.json'') = Manifest (plain_manifest None)" by code_simp
  have n3: "json_name (plain_manifest None) = None" by code_simp
  have i: "found init_scan = []" "messages init_scan = []" by (simp_all add: init_scan_def)
  show ?thesis
    using b1 b2 n1 n2 n3 i
      malformed_manifest_handling [OF b1, where fullPath = "''/app/node_modules/p''" and st = init_scan and rootDir = "''/app''"]
      malformed_manifest_handling [OF n1, where fullPath = "''/app/node_modules/p''" and st = init_scan and rootDir = "''/app''"]
    by auto
qed

section \<open>Properties of activation\<close>

lemma ns_log [simp]: "ns (log msg s) = ns s"
  by (simp add: log_def)

lemma loadedLibraries_log [simp]: "loadedLibraries (log msg s) = loadedLibraries s"
  by (simp add: log_def)

lemma settled_t: "settled nm n \<Longrightarrow> t n nm \<noteq> None"
  by (auto simp: settled_def t_def split: option.splits)

lemma settled_initNamespace: "settled nm (initNamespace nm n)"
  by (cases "t n nm") (simp_all add: settled_def initNamespace_def)

lemma t_initNamespace_self: "t (initNamespace nm n) nm \<noteq> None"
  using settled_initNamespace by (rule settled_t)

lemma t_initNamespace_same: "t n nm = Some v \<Longrightarrow> t (initNamespace nm n) nm = Some v"
  by (auto simp: initNamespace_def t_def split: option.splits)

lemma t_initNamespace_fresh: "t n nm = None \<Longrightarrow> t (initNamespace nm n) nm = Some (Object (next_addr n))"
  by (simp add: initNamespace_def t_def)

lemma t_initNamespace_other: "k \<noteq> nm \<Longrightarrow> t (initNamespace nm n) k = t n k"
proof -
  assume k: "k \<noteq> nm"
  have h: "heap (initNamespace nm n) ObjectPrototype = heap n ObjectPrototype"
    by (cases "t n nm") (simp_all add: initNamespace_def)
  have o: "own_properties (initNamespace nm n) k = own_properties n k"
    using k by (cases "t n nm") (simp_all add: initNamespace_def)
  show ?thesis unfolding t_def h o by (rule refl)
qed

lemma heap_initNamespace_same: "t n nm = Some v \<Longrightarrow> heap (initNamespace nm n) = heap n"
  by (simp add: initNamespace_def)

lemma heap_initNamespace_fresh:
  "t n nm = None \<Longrightarrow> heap (initNamespace nm n) = (heap n)(Object (next_addr n) := Map.empty)"
  by (simp add: initNamespace_def)

lemma bagOf_initNamespace: "bagOf nm (initNamespace nm n) = bagOf nm n"
proof (cases "t n nm")
  case None
  then show ?thesis
    by (simp add: bagOf_def t_initNamespace_fresh heap_initNamespace_fresh)
next
  case (Some v)
  then show ?thesis
    by (simp add: bagOf_def t_initNamespace_same heap_initNamespace_same)
qed

lemma own_properties_setProperty [simp]: "own_properties (setProperty nm key v n) = own_properties n"
  by (cases "t n nm") (simp_all add: setProperty_def)

lemma next_addr_setProperty [simp]: "next_addr (setProperty nm key v n) = next_addr n"
  by (cases "t n nm") (simp_all add: setProperty_def)

lemma frame_refl: "frame nm n n"
  by (simp add: frame_def)

lemma frame_t_self: "settled nm n \<Longrightarrow> frame nm n n' \<Longrightarrow> t n' nm = t n nm"
  by (auto simp: settled_def frame_def t_def split: option.splits)

lemma frame_settled: "frame nm n n' \<Longrightarrow> settled nm n' = settled nm n"
  by (simp add: settled_def frame_def)

lemma frame_trans:
  assumes "settled nm n" "frame nm n n'" "frame nm n' n''"
  shows "frame nm n n''"
proof -
  have e: "t n' nm = t n nm" using assms(1,2) by (rule frame_t_self)
  show ?thesis
    using assms(2,3) unfolding frame_def e by (metis subset_trans)
qed

lemma frame_setProperty: "frame nm n (setProperty nm key v n)"
  by (cases "t n nm") (auto simp: frame_def setProperty_def)

lemma frame_registerFunctions:
  "settled nm (ns s) \<Longrightarrow> frame nm (ns s) (ns (registerFunctions env l nm fns s))"
proof (induction fns arbitrary: s)
  case Nil
  show ?case by (simp add: frame_refl)
next
  case (Cons p fns)
  obtain g d where p: "p = (g, d)" by (cases p)
  let ?s1 = "(case bindRequest env l d of
                Inr f \<Rightarrow> s\<lparr>ns := setProperty nm g f (ns s)\<rparr>
              | Inl e \<Rightarrow> log (''Warning: Failed to load native function '' @ g @ '': '' @ e) s)"
  have 1: "frame nm (ns s) (ns ?s1)"
    by (cases "bindRequest env l d") (simp_all add: frame_refl frame_setProperty)
  have "settled nm (ns ?s1)" using Cons.prems 1 by (simp add: frame_settled)
  then have 2: "frame nm (ns ?s1) (ns (registerFunctions env l nm fns ?s1))" by (rule Cons.IH)
  from frame_trans [OF Cons.prems 1 2] show ?case by (simp add: p)
qed

lemma frame_registerV8:
  "settled nm (ns s) \<Longrightarrow> frame nm (ns s) (ns (registerV8 nm keys s))"
proof -
  assume st: "settled nm (ns s)"
  let ?s1 = "(if ''serialize'' \<in> set keys
              then s\<lparr>ns := setProperty nm ''serialize'' V8_serialize (ns s)\<rparr> else s)"
  have 1: "frame nm (ns s) (ns ?s1)" by (simp add: frame_refl frame_setProperty)
  have 2: "frame nm (ns ?s1) (ns (registerV8 nm keys s))"
    by (simp add: registerV8_def Let_def frame_refl frame_setProperty)
  from frame_trans [OF st 1 2] show ?thesis .
qed

lemma frame_loadNative:
  assumes st: "settled (name ext) (ns s)"
  shows "frame (name ext) (ns s) (ns (loadNative env fs ext s))"
proof (cases "json_native (titanJson ext)")
  case None
  then show ?thesis by (simp add: loadNative_def frame_refl)
next
  case (Some native)
  let ?dll = "resolveDllPath fs (native_path native) (path ext)"
  show ?thesis
  proof (cases "native_path native \<noteq> [] \<and> existsSync fs ?dll")
    case False
    then show ?thesis using Some by (auto simp: loadNative_def frame_refl Let_def)
  next
    case True
    show ?thesis
    proof (cases "koffi_load env ?dll")
      case (Inl e)
      then show ?thesis using Some True by (simp add: loadNative_def frame_refl Let_def)
    next
      case (Inr l)
      let ?s1 = "s\<lparr>loadedLibraries := loadedLibraries s @ [l]\<rparr>"
      let ?s2 = "(case native_functions native of
                   None \<Rightarrow> ?s1
                 | Some fns \<Rightarrow> registerFunctions env l (name ext) fns ?s1)"
      let ?s3 = "(case native_v8_functions native of
                   None \<Rightarrow> ?s2
                 | Some keys \<Rightarrow> registerV8 (name ext) keys ?s2)"
      have st1: "settled (name ext) (ns ?s1)" using st by simp
      have 1: "frame (name ext) (ns s) (ns ?s2)"
        using frame_registerFunctions [OF st1, of env l]
        by (cases "native_functions native") (simp_all add: frame_refl)
      have st2: "settled (name ext) (ns ?s2)" using st 1 by (simp add: frame_settled)
      have 2: "frame (name ext) (ns ?s2) (ns ?s3)"
        using frame_registerV8 [OF st2]
        by (cases "native_v8_functions native") (simp_all add: frame_refl)
      have "ns (loadNative env fs ext s) = ns ?s3"
        using Some True Inr by (simp add: loadNative_def Let_def)
      then show ?thesis using frame_trans [OF st 1 2] by simp
    qed
  qed
qed

lemma ns_bindingPhase:
  "frame (name ext) (initNamespace (name ext) (ns s)) (ns (bindingPhase env fs ext s))"
  using frame_loadNative
    [of ext "(log (''Loading: '' @ name ext @ '' '' @ (if isLocal ext then ''(local)'' else '''')) s)
              \<lparr>ns := initNamespace (name ext) (ns s)\<rparr>" env fs]
  by (simp add: bindingPhase_def Let_def settled_initNamespace)

lemma t_bindingPhase_self:
  "t (ns (bindingPhase env fs ext s)) (name ext) = t (initNamespace (name ext) (ns s)) (name ext)"
  using settled_initNamespace ns_bindingPhase by (rule frame_t_self)

lemma frame_t_other:
  assumes "frame nm n n'" "t n nm \<noteq> Some ObjectPrototype"
  shows "t n' k = t n k"
proof -
  have h: "heap n' ObjectPrototype = heap n ObjectPrototype"
    using assms by (auto simp: frame_def)
  have o: "own_properties n' = own_properties n" using assms(1) by (simp add: frame_def)
  show ?thesis unfolding t_def h o by (rule refl)
qed

text \<open>
  The frame of the binding phase. Whatever the extension and the state: an
  existing object under the name of the extension is kept and loses no key, a
  missing one is created at a new address, and no object other than
  \<^verbatim>\<open>t[name]\<close> is written to. When \<^verbatim>\<open>t[name]\<close> is not \<^verbatim>\<open>Object.prototype\<close>,
  \<^verbatim>\<open>t[n]\<close> is left as it was for every other name \<open>n\<close>, and in a well-formed
  namespace no other name refers to a new bag.
\<close>

lemma bindingPhase_frame:
  "(\<forall>obj. t (ns s) (name ext) = Some obj \<longrightarrow>
        t (ns (bindingPhase env fs ext s)) (name ext) = Some obj \<and>
        dom (heap (ns s) obj) \<subseteq> dom (heap (ns (bindingPhase env fs ext s)) obj)) \<and>
   (t (ns s) (name ext) = None \<longrightarrow>
        t (ns (bindingPhase env fs ext s)) (name ext) = Some (Object (next_addr (ns s)))) \<and>
   (\<forall>obj. Some obj \<noteq> t (ns (bindingPhase env fs ext s)) (name ext) \<longrightarrow>
        heap (ns (bindingPhase env fs ext s)) obj = heap (ns s) obj) \<and>
   (t (ns s) (name ext) \<noteq> Some ObjectPrototype \<longrightarrow>
        (\<forall>n. n \<noteq> name ext \<longrightarrow> t (ns (bindingPhase env fs ext s)) n = t (ns s) n) \<and>
        (wf_namespace (ns s) \<longrightarrow> t (ns s) (name ext) = None \<longrightarrow>
           (\<forall>n. n \<noteq> name ext \<longrightarrow> t (ns (bindingPhase env fs ext s)) n \<noteq> Some (Object (next_addr (ns s))))))"
proof -
  let ?i = "initNamespace (name ext) (ns s)"
  let ?n' = "ns (bindingPhase env fs ext s)"
  have fr: "frame (name ext) ?i ?n'" by (rule ns_bindingPhase)
  have self: "t ?n' (name ext) = t ?i (name ext)" by (rule t_bindingPhase_self)
  have 1: "t ?n' (name ext) = Some obj \<and> dom (heap (ns s) obj) \<subseteq> dom (heap ?n' obj)"
    if "t (ns s) (name ext) = Some obj" for obj
  proof -
    have "heap ?i = heap (ns s)" using that by (rule heap_initNamespace_same)
    then show ?thesis using fr self that by (simp add: frame_def t_initNamespace_same)
  qed
  have 2: "t ?n' (name ext) = Some (Object (next_addr (ns s)))" if "t (ns s) (name ext) = None"
    using that self by (simp add: t_initNamespace_fresh)
  have 3: "heap ?n' obj = heap (ns s) obj" if b: "Some obj \<noteq> t ?n' (name ext)" for obj
  proof -
    have a: "heap ?n' obj = heap ?i obj" using fr b self by (simp add: frame_def)
    show ?thesis
    proof (cases "t (ns s) (name ext)")
      case None
      then have "obj \<noteq> Object (next_addr (ns s))" using b 2 by auto
      then show ?thesis using a None by (simp add: heap_initNamespace_fresh)
    next
      case (Some v)
      then show ?thesis using a by (simp add: heap_initNamespace_same)
    qed
  qed
  have 4: "t ?n' n = t (ns s) n"
    if np: "t (ns s) (name ext) \<noteq> Some ObjectPrototype" and "n \<noteq> name ext" for n
  proof -
    have "t ?i (name ext) \<noteq> Some ObjectPrototype"
      using np by (cases "t (ns s) (name ext)") (simp_all add: t_initNamespace_fresh t_initNamespace_same)
    then have "t ?n' n = t ?i n" using fr by (intro frame_t_other)
    then show ?thesis using that(2) by (simp add: t_initNamespace_other)
  qed
  have 5: "t ?n' n \<noteq> Some (Object (next_addr (ns s)))"
    if "t (ns s) (name ext) \<noteq> Some ObjectPrototype" "wf_namespace (ns s)" "t (ns s) (name ext) = None"
      "n \<noteq> name ext" for n
  proof
    assume "t ?n' n = Some (Object (next_addr (ns s)))"
    then have "t (ns s) n = Some (Object (next_addr (ns s)))" using 4 [OF that(1,4)] by simp
    then have "next_addr (ns s) < next_addr (ns s)" using that(2) unfolding wf_namespace_def by blast
    then show False by simp
  qed
  from 1 2 3 4 5 show ?thesis by blast
qed

text \<open>
  C10. The claim: for every extension and every namespace state, the binding
  phase of \<^verbatim>\<open>loadExtension\<close> changes \<^verbatim>\<open>t[name]\<close> only, and leaves \<^verbatim>\<open>t[n]\<close> as
  it was for every other name \<open>n\<close>. The code, on the namespace that
  \<^verbatim>\<open>bootstrap\<close> creates and an extension named \<^verbatim>\<open>__proto__\<close> that declares the
  function \<^verbatim>\<open>add\<close> and the two serialization hooks: \<^verbatim>\<open>t['__proto__']\<close> is
  \<^verbatim>\<open>Object.prototype\<close>, line 246 creates no bag, and lines 264, 274 and 277
  write to \<^verbatim>\<open>Object.prototype\<close>, so that \<^verbatim>\<open>t['add']\<close>, \<^verbatim>\<open>t['serialize']\<close> and
  \<^verbatim>\<open>t['deserialize']\<close>, which were undefined, are bound afterwards.
\<close>

theorem bindingPhase_writes_to_prototype:
  "name proto_ext = ''__proto__'' \<and>
   ''add'' \<noteq> name proto_ext \<and> ''serialize'' \<noteq> name proto_ext \<and> ''deserialize'' \<noteq> name proto_ext \<and>
   t (ns boot_state) ''__proto__'' = Some ObjectPrototype \<and>
   t (ns boot_state) ''add'' = None \<and>
   t (ns boot_state) ''serialize'' = None \<and>
   t (ns boot_state) ''deserialize'' = None \<and>
   own_properties (ns (bindingPhase koffi proto_fs proto_ext boot_state)) ''__proto__'' = None \<and>
   t (ns (bindingPhase koffi proto_fs proto_ext boot_state)) ''__proto__'' = Some ObjectPrototype \<and>
   next_addr (ns (bindingPhase koffi proto_fs proto_ext boot_state)) = next_addr (ns boot_state) \<and>
   heap (ns (bindingPhase koffi proto_fs proto_ext boot_state)) ObjectPrototype ''add'' = Some (Value 1) \<and>
   t (ns (bindingPhase koffi proto_fs proto_ext boot_state)) ''add'' = Some (Value 1) \<and>
   t (ns (bindingPhase koffi proto_fs proto_ext boot_state)) ''serialize'' = Some V8_serialize \<and>
   t (ns (bindingPhase koffi proto_fs proto_ext boot_state)) ''deserialize'' = Some V8_deserialize \<and>
   messages (bindingPhase koffi proto_fs proto_ext boot_state) =
     [''Loading: __proto__ '', ''Warning: Failed to load native function hash: symbol not found'',
      ''Loaded native: /m/proto/core.dll'']"
  by code_simp

lemma bagOf_setProperty:
  "settled nm n \<Longrightarrow> bagOf nm (setProperty nm key v n) = (bagOf nm n)(key \<mapsto> v)"
proof -
  assume st: "settled nm n"
  then obtain obj where obj: "t n nm = Some obj" using settled_t by fastforce
  have "t (setProperty nm key v n) nm = t n nm"
    using st frame_setProperty by (rule frame_t_self)
  then show ?thesis using obj by (simp add: bagOf_def) (simp add: setProperty_def)
qed

lemma own_properties_registerFunctions [simp]:
  "own_properties (ns (registerFunctions env l nm fns s)) = own_properties (ns s)"
proof (induction fns arbitrary: s)
  case Nil
  show ?case by simp
next
  case (Cons p fns)
  obtain g d where p: "p = (g, d)" by (cases p)
  show ?case unfolding p
    by (cases "bindRequest env l d") (simp_all add: Cons.IH)
qed

lemma own_properties_registerV8 [simp]:
  "own_properties (ns (registerV8 nm keys s)) = own_properties (ns s)"
  by (simp add: registerV8_def Let_def)

lemma settled_registerFunctions [simp]:
  "settled nm (ns (registerFunctions env l nm' fns s)) = settled nm (ns s)"
  by (simp add: settled_def)

lemma settled_registerV8 [simp]: "settled nm (ns (registerV8 nm' keys s)) = settled nm (ns s)"
  by (simp add: settled_def)

lemma settled_setProperty [simp]: "settled nm (setProperty nm' key v n) = settled nm n"
  by (simp add: settled_def)

lemma messages_registerV8 [simp]: "messages (registerV8 nm keys s) = messages s"
  by (simp add: registerV8_def Let_def)

lemma loadedLibraries_registerV8 [simp]: "loadedLibraries (registerV8 nm keys s) = loadedLibraries s"
  by (simp add: registerV8_def Let_def)

lemma bagOf_registerV8:
  assumes "settled nm (ns s)"
  shows "bagOf nm (ns (registerV8 nm keys s)) g =
           (if g = ''deserialize'' \<and> ''deserialize'' \<in> set keys then Some V8_deserialize
            else if g = ''serialize'' \<and> ''serialize'' \<in> set keys then Some V8_serialize
            else bagOf nm (ns s) g)"
  using assms by (simp add: registerV8_def Let_def bagOf_setProperty)


lemma loadedLibraries_registerFunctions [simp]:
  "loadedLibraries (registerFunctions env l nm fns s) = loadedLibraries s"
proof (induction fns arbitrary: s)
  case Nil
  show ?case by simp
next
  case (Cons p fns)
  obtain g d where p: "p = (g, d)" by (cases p)
  show ?case unfolding p
    by (cases "bindRequest env l d") (simp_all add: Cons.IH)
qed


lemma bindingPhase_initialised: "bindingPhase env fs ext s = loadNative env fs ext (initialised ext s)"
  by (simp add: bindingPhase_def initialised_def loadingMessage_def Let_def)

lemma initialised_simps [simp]:
  "messages (initialised ext s) = messages s @ [loadingMessage ext]"
  "ns (initialised ext s) = initNamespace (name ext) (ns s)"
  "loadedLibraries (initialised ext s) = loadedLibraries s"
  by (simp_all add: initialised_def)

lemma loadNative_skipped:
  assumes "json_native (titanJson ext) = None \<or>
           (\<exists>native. json_native (titanJson ext) = Some native \<and> native_path native = [])"
  shows "loadNative env fs ext s = s"
  using assms by (auto simp: loadNative_def)

lemma loadNative_missing:
  assumes "json_native (titanJson ext) = Some native" "native_path native \<noteq> []"
    "\<not> existsSync fs (resolveDllPath fs (native_path native) (path ext))"
  shows "loadNative env fs ext s =
           log (''Warning: DLL not found: '' @ resolveDllPath fs (native_path native) (path ext)) s"
  using assms by (simp add: loadNative_def Let_def)

lemma loadNative_load_failed:
  assumes "json_native (titanJson ext) = Some native" "native_path native \<noteq> []"
    "existsSync fs (resolveDllPath fs (native_path native) (path ext))"
    "koffi_load env (resolveDllPath fs (native_path native) (path ext)) = Inl e"
  shows "loadNative env fs ext s =
           log (''Warning: Failed to load DLL '' @ resolveDllPath fs (native_path native) (path ext) @ '': '' @ e) s"
  using assms by (simp add: loadNative_def Let_def)

lemma loadNative_loaded:
  assumes "json_native (titanJson ext) = Some native" "native_path native \<noteq> []"
    "existsSync fs (resolveDllPath fs (native_path native) (path ext))"
    "koffi_load env (resolveDllPath fs (native_path native) (path ext)) = Inr l"
  shows "loadNative env fs ext s =
           log (''Loaded native: '' @ resolveDllPath fs (native_path native) (path ext))
             (bound env l ext native s)"
  using assms by (simp add: loadNative_def bound_def Let_def)

lemma bagOf_bound_hook:
  assumes "settled (name ext) (ns s)" "native_v8_functions native = Some keys"
  shows "''serialize'' \<in> set keys \<Longrightarrow> bagOf (name ext) (ns (bound env l ext native s)) ''serialize'' = Some V8_serialize"
    and "''deserialize'' \<in> set keys \<Longrightarrow> bagOf (name ext) (ns (bound env l ext native s)) ''deserialize'' = Some V8_deserialize"
proof -
  let ?s1 = "s\<lparr>loadedLibraries := loadedLibraries s @ [l]\<rparr>"
  let ?s2 = "(case native_functions native of
                None \<Rightarrow> ?s1
              | Some fns \<Rightarrow> registerFunctions env l (name ext) fns ?s1)"
  have t2: "settled (name ext) (ns ?s2)"
    using assms(1) by (cases "native_functions native") simp_all
  have b: "bound env l ext native s = registerV8 (name ext) keys ?s2"
    using assms(2) by (simp add: bound_def Let_def)
  show "''serialize'' \<in> set keys \<Longrightarrow> bagOf (name ext) (ns (bound env l ext native s)) ''serialize'' = Some V8_serialize"
    unfolding b using bagOf_registerV8 [OF t2, of keys "''serialize''"] by simp
  show "''deserialize'' \<in> set keys \<Longrightarrow> bagOf (name ext) (ns (bound env l ext native s)) ''deserialize'' = Some V8_deserialize"
    unfolding b using bagOf_registerV8 [OF t2, of keys "''deserialize''"] by simp
qed





lemma loadModule_absent:
  "\<not> existsSync fs (entryModulePath fs ext) \<Longrightarrow> loadModule env fs ext s = s"
  by (simp add: loadModule_def entryModulePath_def Let_def)

lemma ns_loadModule:
  "ns (loadModule env fs ext s) =
     (if existsSync fs (entryModulePath fs ext)
      then snd (import_module env (entryModulePath fs ext) (ns s))
      else ns s)"
  by (simp add: loadModule_def entryModulePath_def Let_def split: prod.splits option.splits)

text \<open>
  C7. For every extension whose descriptor declares a native binding and whose
  resolved library location does not exist: activation logs the warning
  \<^verbatim>\<open>DLL not found\<close>, binds nothing (no library is retained, the bag under the
  name of the extension has the content it had, none if it is new), leaves an
  initialised bag under the name of the extension, and goes on to the entry
  module step from that state; with no entry module the activation ends
  there, and with one the namespace after activation is what the module made
  of the initialised one; the run goes on with the extensions that remain.
\<close>

theorem missing_library_degrades:
  assumes "json_native (titanJson ext) = Some native" "native_path native \<noteq> []"
    and "\<not> existsSync fs (resolveDllPath fs (native_path native) (path ext))"
  shows "messages (bindingPhase env fs ext s) =
           messages s @ [loadingMessage ext,
                         ''Warning: DLL not found: '' @ resolveDllPath fs (native_path native) (path ext)] \<and>
         ns (bindingPhase env fs ext s) = initNamespace (name ext) (ns s) \<and>
         loadedLibraries (bindingPhase env fs ext s) = loadedLibraries s \<and>
         t (ns (bindingPhase env fs ext s)) (name ext) \<noteq> None \<and>
         bagOf (name ext) (ns (bindingPhase env fs ext s)) = bagOf (name ext) (ns s) \<and>
         loadExtension env fs ext s = loadModule env fs ext (bindingPhase env fs ext s) \<and>
         (\<not> existsSync fs (entryModulePath fs ext) \<longrightarrow>
            loadExtension env fs ext s = bindingPhase env fs ext s) \<and>
         ns (loadExtension env fs ext s) =
           (if existsSync fs (entryModulePath fs ext)
            then snd (import_module env (entryModulePath fs ext) (initNamespace (name ext) (ns s)))
            else initNamespace (name ext) (ns s)) \<and>
         loadAll env fs (ext # rest) s =
           loadAll env fs rest (loadModule env fs ext (bindingPhase env fs ext s))"
proof -
  have b: "bindingPhase env fs ext s =
             log (''Warning: DLL not found: '' @ resolveDllPath fs (native_path native) (path ext))
               (initialised ext s)"
    unfolding bindingPhase_initialised using assms by (rule loadNative_missing)
  have 1: "messages (bindingPhase env fs ext s) =
           messages s @ [loadingMessage ext,
                         ''Warning: DLL not found: '' @ resolveDllPath fs (native_path native) (path ext)]"
    unfolding b by simp
  have 2: "ns (bindingPhase env fs ext s) = initNamespace (name ext) (ns s)"
    unfolding b by simp
  have 3: "loadedLibraries (bindingPhase env fs ext s) = loadedLibraries s"
    unfolding b by simp
  have 4: "t (ns (bindingPhase env fs ext s)) (name ext) \<noteq> None"
    unfolding 2 by (rule t_initNamespace_self)
  have 5: "bagOf (name ext) (ns (bindingPhase env fs ext s)) = bagOf (name ext) (ns s)"
    unfolding 2 by (rule bagOf_initNamespace)
  have 6: "loadExtension env fs ext s = loadModule env fs ext (bindingPhase env fs ext s)"
    by (simp add: loadExtension_def)
  have 7: "\<not> existsSync fs (entryModulePath fs ext) \<longrightarrow>
            loadExtension env fs ext s = bindingPhase env fs ext s"
    by (simp add: loadExtension_def loadModule_absent)
  have 8: "loadAll env fs (ext # rest) s =
             loadAll env fs rest (loadModule env fs ext (bindingPhase env fs ext s))"
    by (simp add: loadAll_def loadExtension_def)
  have 9: "ns (loadExtension env fs ext s) =
             (if existsSync fs (entryModulePath fs ext)
              then snd (import_module env (entryModulePath fs ext) (initNamespace (name ext) (ns s)))
              else initNamespace (name ext) (ns s))"
    unfolding loadExtension_def ns_loadModule 2 by (rule refl)
  from 1 2 3 4 5 6 7 9 8 show ?thesis by (intro conjI)
qed

theorem missing_library_degrades_witness:
  "json_native (titanJson core_ext) = Some core_native \<and> native_path core_native \<noteq> [] \<and>
   \<not> existsSync no_files (resolveDllPath no_files (native_path core_native) (path core_ext)) \<and>
   \<not> existsSync no_files (entryModulePath no_files core_ext) \<and>
   messages (loadExtension koffi no_files core_ext boot_state) =
     [''Loading: core '', ''Warning: DLL not found: /m/core/core.dll''] \<and>
   t (ns (loadExtension koffi no_files core_ext boot_state)) ''core'' = Some (Object 2) \<and>
   t (ns (bindingPhase koffi no_files core_ext boot_state)) (name core_ext) \<noteq> None \<and>
   loadedLibraries (bindingPhase koffi no_files core_ext boot_state) = loadedLibraries boot_state \<and>
   loadExtension koffi no_files core_ext boot_state = bindingPhase koffi no_files core_ext boot_state"
proof -
  have h1: "json_native (titanJson core_ext) = Some core_native" by code_simp
  have h2: "native_path core_native \<noteq> []" by code_simp
  have h3: "\<not> existsSync no_files (resolveDllPath no_files (native_path core_native) (path core_ext))"
    by code_simp
  have h4: "\<not> existsSync no_files (entryModulePath no_files core_ext)" by code_simp
  have r1: "messages (loadExtension koffi no_files core_ext boot_state) =
              [''Loading: core '', ''Warning: DLL not found: /m/core/core.dll'']" by code_simp
  have r2: "t (ns (loadExtension koffi no_files core_ext boot_state)) ''core'' = Some (Object 2)" by code_simp
  show ?thesis
    using h1 h2 h3 h4 r1 r2 missing_library_degrades [OF h1 h2 h3, where env = koffi and s = boot_state and rest = "[]"] by blast
qed

text \<open>
  C8. The claim: whenever the descriptor declares the hooks \<^verbatim>\<open>serialize\<close> or
  \<^verbatim>\<open>deserialize\<close>, activation binds them to the serialization service, also
  when the native library does not exist or does not load. The code binds
  them inside the branch of the loaded library: for \<^verbatim>\<open>core\<close>, which declares
  both, with no library on disk, the bag has neither after activation.
\<close>

theorem serialization_hooks_need_library:
  "json_native (titanJson core_ext) = Some core_native \<and>
   native_v8_functions core_native = Some [''serialize'', ''deserialize''] \<and>
   bagOf ''core'' (ns (loadExtension koffi no_files core_ext boot_state)) ''serialize'' = None \<and>
   bagOf ''core'' (ns (loadExtension koffi no_files core_ext boot_state)) ''deserialize'' = None"
  by code_simp

text \<open>
  C8, as the code has it. For every extension whose descriptor declares the
  hooks: when the native library is named, exists and loads, activation binds
  each declared hook in the bag of the extension to the operation of the
  serialization service itself, whatever the binding service answers; when
  the library is not named, does not exist or does not load, the binding
  phase only initialises the bag and binds no hook.
\<close>

theorem serialization_hooks_bound_with_library:
  assumes "json_native (titanJson ext) = Some native"
    and "native_v8_functions native = Some keys"
  shows "(native_path native \<noteq> [] \<and>
          existsSync fs (resolveDllPath fs (native_path native) (path ext)) \<and>
          (\<exists>l. koffi_load env (resolveDllPath fs (native_path native) (path ext)) = Inr l) \<longrightarrow>
            (''serialize'' \<in> set keys \<longrightarrow>
               bagOf (name ext) (ns (bindingPhase env fs ext s)) ''serialize'' = Some V8_serialize) \<and>
            (''deserialize'' \<in> set keys \<longrightarrow>
               bagOf (name ext) (ns (bindingPhase env fs ext s)) ''deserialize'' = Some V8_deserialize)) \<and>
         (\<not> (native_path native \<noteq> [] \<and>
             existsSync fs (resolveDllPath fs (native_path native) (path ext)) \<and>
             (\<exists>l. koffi_load env (resolveDllPath fs (native_path native) (path ext)) = Inr l)) \<longrightarrow>
            ns (bindingPhase env fs ext s) = initNamespace (name ext) (ns s))"
proof (intro conjI impI)
  let ?dll = "resolveDllPath fs (native_path native) (path ext)"
  assume ok: "native_path native \<noteq> [] \<and> existsSync fs ?dll \<and> (\<exists>l. koffi_load env ?dll = Inr l)"
  then obtain l where l: "koffi_load env ?dll = Inr l" by blast
  have b: "bindingPhase env fs ext s = log (''Loaded native: '' @ ?dll) (bound env l ext native (initialised ext s))"
    unfolding bindingPhase_initialised using assms(1) ok l by (intro loadNative_loaded) simp_all
  have t0: "settled (name ext) (ns (initialised ext s))" by (simp add: settled_initNamespace)
  show "bagOf (name ext) (ns (bindingPhase env fs ext s)) ''serialize'' = Some V8_serialize"
    if "''serialize'' \<in> set keys"
    unfolding b using bagOf_bound_hook(1) [OF t0 assms(2) that] by simp
  show "bagOf (name ext) (ns (bindingPhase env fs ext s)) ''deserialize'' = Some V8_deserialize"
    if "''deserialize'' \<in> set keys"
    unfolding b using bagOf_bound_hook(2) [OF t0 assms(2) that] by simp
next
  let ?dll = "resolveDllPath fs (native_path native) (path ext)"
  assume no: "\<not> (native_path native \<noteq> [] \<and> existsSync fs ?dll \<and> (\<exists>l. koffi_load env ?dll = Inr l))"
  show "ns (bindingPhase env fs ext s) = initNamespace (name ext) (ns s)"
  proof (cases "native_path native = []")
    case True
    then show ?thesis
      unfolding bindingPhase_initialised using assms(1) by (simp add: loadNative_skipped)
  next
    case path: False
    show ?thesis
    proof (cases "existsSync fs ?dll")
      case False
      then show ?thesis
        unfolding bindingPhase_initialised using assms(1) path by (simp add: loadNative_missing)
    next
      case True
      then obtain e where "koffi_load env ?dll = Inl e"
        using no path by (cases "koffi_load env ?dll") auto
      then show ?thesis
        unfolding bindingPhase_initialised using assms(1) path True by (simp add: loadNative_load_failed)
    qed
  qed
qed

theorem serialization_hooks_bound_with_library_witness:
  "json_native (titanJson core_ext) = Some core_native \<and>
   native_v8_functions core_native = Some [''serialize'', ''deserialize''] \<and>
   native_path core_native \<noteq> [] \<and>
   existsSync dll_only (resolveDllPath dll_only (native_path core_native) (path core_ext)) \<and>
   koffi_load koffi (resolveDllPath dll_only (native_path core_native) (path core_ext)) = Inr 7 \<and>
   bagOf (name core_ext) (ns (bindingPhase koffi dll_only core_ext boot_state)) ''serialize'' = Some V8_serialize \<and>
   bagOf (name core_ext) (ns (bindingPhase koffi dll_only core_ext boot_state)) ''deserialize'' = Some V8_deserialize \<and>
   \<not> existsSync no_files (resolveDllPath no_files (native_path core_native) (path core_ext)) \<and>
   ns (bindingPhase koffi no_files core_ext boot_state) = initNamespace (name core_ext) (ns boot_state)"
proof -
  have h1: "json_native (titanJson core_ext) = Some core_native" by code_simp
  have h2: "native_v8_functions core_native = Some [''serialize'', ''deserialize'']" by code_simp
  have h3: "native_path core_native \<noteq> []" by code_simp
  have h4: "existsSync dll_only (resolveDllPath dll_only (native_path core_native) (path core_ext))"
    by code_simp
  have h5: "koffi_load koffi (resolveDllPath dll_only (native_path core_native) (path core_ext)) = Inr 7"
    by code_simp
  have h6: "\<not> existsSync no_files (resolveDllPath no_files (native_path core_native) (path core_ext))"
    by code_simp
  have k: "''serialize'' \<in> set [''serialize'', ''deserialize'']" "''deserialize'' \<in> set [''serialize'', ''deserialize'']"
    by simp_all
  show ?thesis
    using h1 h2 h3 h4 h5 h6 k
      serialization_hooks_bound_with_library [OF h1 h2, where fs = dll_only and env = koffi and s = boot_state]
      serialization_hooks_bound_with_library [OF h1 h2, where fs = no_files and env = koffi and s = boot_state]
    by blast
qed



end
